theory Spec2Isabelle
  imports Complex_Main "HOL-Library.Sublist"
begin

section \<open>Python text primitives\<close>

text \<open>
  A Python \<open>str\<close> is a sequence of code points. It is modelled as a \<open>string\<close> in which
  every \<open>char\<close> stands for one code point of the range 0..255 (Latin-1), so \<open>length\<close>
  counts what Python's \<open>len\<close> counts. The operations below (\<open>in\<close>, \<open>index\<close>, \<open>count\<close>,
  \<open>split\<close>, \<open>join\<close>, \<open>startswith\<close>, \<open>list.insert\<close>) only compare elements, and are
  written for lists of any element type.
\<close>

datatype py_error = ValueError | OverflowError

text \<open>\<open>p in s\<close> for two strings: \<open>p\<close> occurs in \<open>s\<close> as a contiguous substring.\<close>

fun str_in :: "'a list \<Rightarrow> 'a list \<Rightarrow> bool" where
  "str_in p [] = (p = [])"
| "str_in p (c # cs) = (prefix p (c # cs) \<or> str_in p cs)"

text \<open>\<open>s.index(p)\<close>: the position of the first occurrence, \<open>ValueError\<close> when there is none.\<close>

fun str_index :: "'a list \<Rightarrow> 'a list \<Rightarrow> py_error + nat" where
  "str_index [] p = (if p = [] then Inr 0 else Inl ValueError)"
| "str_index (c # cs) p =
     (if prefix p (c # cs) then Inr 0
      else (case str_index cs p of Inl e \<Rightarrow> Inl e | Inr i \<Rightarrow> Inr (Suc i)))"

text \<open>
  \<open>s.count(p)\<close>: the number of non-overlapping occurrences, scanning from the left; the
  empty pattern is counted once between every two characters and at both ends.
\<close>

function str_count :: "'a list \<Rightarrow> 'a list \<Rightarrow> nat" where
  "str_count s p =
     (if p = [] then Suc (length s)
      else (case s of
              [] \<Rightarrow> 0
            | c # cs \<Rightarrow> (if prefix p s then Suc (str_count (drop (length p) s) p)
                        else str_count cs p)))"
  by pat_completeness auto
termination
  by (relation "measure (\<lambda>(s, p). length s)") auto

declare str_count.simps [simp del]

text \<open>\<open>s.split(sep)\<close> for a one-character separator: never empty, keeps empty pieces.\<close>

fun str_split :: "'a list \<Rightarrow> 'a \<Rightarrow> 'a list list" where
  "str_split [] sep = [[]]"
| "str_split (c # cs) sep =
     (if c = sep then [] # str_split cs sep
      else (case str_split cs sep of
              [] \<Rightarrow> [[c]]
            | l # ls \<Rightarrow> (c # l) # ls))"

text \<open>\<open>sep.join(xs)\<close>.\<close>

fun str_join :: "'a list \<Rightarrow> 'a list list \<Rightarrow> 'a list" where
  "str_join sep [] = []"
| "str_join sep [x] = x"
| "str_join sep (x # y # ys) = x @ sep @ str_join sep (y # ys)"

text \<open>\<open>xs.insert(i, x)\<close> for \<open>i \<ge> 0\<close>; an index past the end appends, as in Python.\<close>

definition list_insert :: "nat \<Rightarrow> 'a \<Rightarrow> 'a list \<Rightarrow> 'a list" where
  "list_insert i x xs = take i xs @ [x] @ drop i xs"

text \<open>\<open>s.startswith(p)\<close>.\<close>

definition startswith :: "'a list \<Rightarrow> 'a list \<Rightarrow> bool" where
  "startswith s p = prefix p s"

definition newline :: char where
  "newline = CHR 0x0A"

text \<open>
  \<open>str.lower()\<close> on the code points 0..255: the ASCII capitals and the Latin-1 capitals
  (0xC0..0xDE without the multiplication sign 0xD7) move up by 32, every other code point
  of the range is its own lower case.
\<close>

definition lower_char :: "char \<Rightarrow> char" where
  "lower_char c =
     (let n = of_char c :: nat
      in if (65 \<le> n \<and> n \<le> 90) \<or> (192 \<le> n \<and> n \<le> 222 \<and> n \<noteq> 215)
         then char_of (n + 32) else c)"

definition lower :: "string \<Rightarrow> string" where
  "lower s = map lower_char s"

text \<open>
  \<open>str.isspace\<close> on one code point of 0..255, which is also what \<open>str.split()\<close> without
  an argument and the regular-expression class \<open>\s\<close> separate on.
\<close>

definition is_space :: "char \<Rightarrow> bool" where
  "is_space c =
     (let n = of_char c :: nat
      in (9 \<le> n \<and> n \<le> 13) \<or> (28 \<le> n \<and> n \<le> 32) \<or> n = 133 \<or> n = 160)"

text \<open>\<open>s.split()\<close>: the maximal runs of non-space characters, in order.\<close>

fun split_ws_acc :: "string \<Rightarrow> string \<Rightarrow> string list" where
  "split_ws_acc [] cur = (if cur = [] then [] else [cur])"
| "split_ws_acc (c # cs) cur =
     (if is_space c then (if cur = [] then split_ws_acc cs [] else cur # split_ws_acc cs [])
      else split_ws_acc cs (cur @ [c]))"

definition split_ws :: "string \<Rightarrow> string list" where
  "split_ws s = split_ws_acc s []"

text \<open>\<open>str(n)\<close> for an integer: decimal digits, with a minus sign below zero.\<close>

definition digit_char :: "nat \<Rightarrow> char" where
  "digit_char d = char_of (48 + d)"

function str_of_nat :: "nat \<Rightarrow> string" where
  "str_of_nat n = (if n < 10 then [digit_char n] else str_of_nat (n div 10) @ [digit_char (n mod 10)])"
  by pat_completeness auto
termination
  by (relation "measure id") auto

declare str_of_nat.simps [simp del]

definition str_of_int :: "int \<Rightarrow> string" where
  "str_of_int i = (if i < 0 then CHR ''-'' # str_of_nat (nat (- i)) else str_of_nat (nat i))"


section \<open>The static validator (code_validator.py)\<close>

subsection \<open>Class constants\<close>

definition DANGEROUS_IMPORTS :: "string list" where
  "DANGEROUS_IMPORTS =
     [''os.system'', ''subprocess'', ''eval'', ''exec'', ''__import__'', ''compile'', ''open'']"

definition REQUIRED_IMPORTS :: "string list" where
  "REQUIRED_IMPORTS = [''bpy'']"

definition file_ops :: "string list" where
  "file_ops = [''open('', ''write('', ''read('', ''remove('', ''unlink('']"

definition network_ops :: "string list" where
  "network_ops = [''urllib'', ''requests'', ''socket'', ''http'']"

subsection \<open>Syntax check\<close>

text \<open>
  \<open>ast.parse\<close> belongs to the Python standard library, not to this repository, so the
  validator takes it as a parameter. Its outcome is what \<open>_check_syntax\<close> distinguishes:
  the text parses, a \<open>SyntaxError\<close> with its \<open>lineno\<close> (an integer or \<open>None\<close>) and its
  \<open>msg\<close>, or any other exception with its \<open>str(e)\<close>.
\<close>

datatype parse_outcome =
    Parsed
  | SyntaxError "int option" string
  | OtherException string

definition fmt_lineno :: "int option \<Rightarrow> string" where
  "fmt_lineno l = (case l of None \<Rightarrow> ''None'' | Some i \<Rightarrow> str_of_int i)"

definition check_syntax :: "(string \<Rightarrow> parse_outcome) \<Rightarrow> string \<Rightarrow> bool \<times> string list" where
  "check_syntax ast_parse code =
     (case ast_parse code of
        Parsed \<Rightarrow> (True, [])
      | SyntaxError lineno msg \<Rightarrow>
          (False, [''Syntax Error at line '' @ fmt_lineno lineno @ '': '' @ msg])
      | OtherException s \<Rightarrow> (False, [''Parsing Error: '' @ s]))"

subsection \<open>Security scan\<close>

text \<open>
  The test of one line in \<open>_is_in_comment\<close>:
  \<open>'#' not in line or line.index(pattern) < line.index('#')\<close>, evaluated left to right,
  with the \<open>ValueError\<close> of \<open>index\<close> kept as a result.
\<close>

definition outside_comment :: "string \<Rightarrow> string \<Rightarrow> py_error + bool" where
  "outside_comment line pattern =
     (if \<not> str_in ''#'' line then Inr True
      else (case str_index line pattern of
              Inl e \<Rightarrow> Inl e
            | Inr i \<Rightarrow> (case str_index line ''#'' of
                          Inl e \<Rightarrow> Inl e
                        | Inr j \<Rightarrow> Inr (i < j))))"

fun is_in_comment_lines :: "string list \<Rightarrow> string \<Rightarrow> py_error + bool" where
  "is_in_comment_lines [] pattern = Inr True"
| "is_in_comment_lines (line # rest) pattern =
     (if str_in pattern line
      then (case outside_comment line pattern of
              Inl e \<Rightarrow> Inl e
            | Inr b \<Rightarrow> (if b then Inr False else is_in_comment_lines rest pattern))
      else is_in_comment_lines rest pattern)"

definition is_in_comment :: "string \<Rightarrow> string \<Rightarrow> py_error + bool" where
  "is_in_comment code pattern = is_in_comment_lines (str_split code newline) pattern"

text \<open>The three loops of \<open>_check_security\<close>, each appending to \<open>issues\<close>.\<close>

fun dangerous_loop :: "string \<Rightarrow> string list \<Rightarrow> string list \<Rightarrow> string list" where
  "dangerous_loop code [] issues = issues"
| "dangerous_loop code (dangerous # rest) issues =
     dangerous_loop code rest
       (if str_in dangerous code
        then issues @ [''Dangerous operation detected: '' @ dangerous] else issues)"

fun file_ops_loop :: "string \<Rightarrow> string list \<Rightarrow> string list \<Rightarrow> py_error + string list" where
  "file_ops_loop code [] issues = Inr issues"
| "file_ops_loop code (op # rest) issues =
     (if str_in op code
      then (case is_in_comment code op of
              Inl e \<Rightarrow> Inl e
            | Inr b \<Rightarrow>
                file_ops_loop code rest
                  (if \<not> b then issues @ [''File operation detected: '' @ op] else issues))
      else file_ops_loop code rest issues)"

fun network_loop :: "string \<Rightarrow> string list \<Rightarrow> string list \<Rightarrow> string list" where
  "network_loop code [] issues = issues"
| "network_loop code (op # rest) issues =
     network_loop code rest
       (if str_in (''import '' @ op) code \<or> str_in (''from '' @ op) code
        then issues @ [''Network operation detected: '' @ op] else issues)"

definition check_security :: "string \<Rightarrow> py_error + (bool \<times> string list)" where
  "check_security code =
     (case file_ops_loop code file_ops (dangerous_loop code DANGEROUS_IMPORTS []) of
        Inl e \<Rightarrow> Inl e
      | Inr issues1 \<Rightarrow>
          (let issues = network_loop code network_ops issues1;
               is_safe = (length issues = 0)
           in Inr (is_safe, issues)))"

subsection \<open>Import hygiene and API heuristics\<close>

fun required_loop :: "string \<Rightarrow> string list \<Rightarrow> string list \<Rightarrow> string list" where
  "required_loop code [] warnings = warnings"
| "required_loop code (required # rest) warnings =
     required_loop code rest
       (if \<not> str_in (''import '' @ required) code \<and> \<not> str_in (''from '' @ required) code
        then warnings @ [''Missing recommended import: '' @ required] else warnings)"

definition check_imports :: "string \<Rightarrow> string list" where
  "check_imports code =
     (let warnings1 = required_loop code REQUIRED_IMPORTS [];
          warnings2 =
            (if str_in ''math'' (lower code) \<and> \<not> str_in ''import math'' code
             then warnings1 @ [''Code mentions 'math' but doesn't import math module'']
             else warnings1)
      in if str_in ''vector'' (lower code) \<and> \<not> str_in ''from mathutils import'' code
         then warnings2 @ [''Code mentions 'vector' but doesn't import from mathutils'']
         else warnings2)"

definition check_blender_api :: "string \<Rightarrow> string list" where
  "check_blender_api code =
     (let w1 =
            (if \<not> list_ex (\<lambda>pattern. str_in pattern code)
                      [''bpy.ops.object.select_all'', ''bpy.ops.object.delete'']
             then [''Code doesn't clear existing objects - may cause conflicts'']
             else []);
          w2 =
            (if (str_in ''bpy.ops.mesh'' code \<or> str_in ''bpy.ops.curve'' code)
                \<and> \<not> str_in ''.name ='' code \<and> \<not> str_in ''name='' code
             then w1 @ [''Objects created but not named - may be hard to reference'']
             else w1);
          w3 =
            (if str_in ''bpy.ops.'' code
                \<and> \<not> str_in ''bpy.context.view_layer.objects.active'' code
                \<and> str_count code ''bpy.ops.'' > 5
             then w2 @ [''Many operations without setting active object - may cause issues'']
             else w2)
      in if str_in ''bpy.data.objects.new'' code
            \<and> \<not> str_in ''scene.collection.objects.link'' code
            \<and> \<not> str_in ''bpy.context.collection.objects.link'' code
         then w3 @ [''Objects created but not linked to scene collection'']
         else w3)"

subsection \<open>validate\<close>

text \<open>
  The result is the tuple \<open>(is_valid, errors, warnings)\<close>. Logging is the only effect of
  the source and is left out. An exception escaping \<open>_check_security\<close> would escape
  \<open>validate\<close>; it is the \<open>Inl\<close> branch.
\<close>

definition validate ::
  "(string \<Rightarrow> parse_outcome) \<Rightarrow> string \<Rightarrow> py_error + (bool \<times> string list \<times> string list)" where
  "validate ast_parse code =
     (case check_syntax ast_parse code of
        (syntax_valid, syntax_errors) \<Rightarrow>
          if \<not> syntax_valid then Inr (False, [] @ syntax_errors, [])
          else (case check_security code of
                  Inl e \<Rightarrow> Inl e
                | Inr (security_valid, security_issues) \<Rightarrow>
                    (let errors = (if \<not> security_valid then [] @ security_issues else []);
                         warnings = [] @ check_imports code @ check_blender_api code;
                         is_valid = (length errors = 0)
                     in Inr (is_valid, errors, warnings))))"

subsection \<open>auto_fix\<close>

definition clear_code :: string where
  "clear_code =
     ''# Clear existing objects'' @ [newline] @
     ''bpy.ops.object.select_all(action='SELECT')'' @ [newline] @
     ''bpy.ops.object.delete()'' @ [newline] @
     [newline]"

text \<open>The \<open>enumerate\<close> loop of \<open>auto_fix\<close>: \<open>i\<close> is the index of the line at the head.\<close>

fun import_end_loop :: "nat \<Rightarrow> string list \<Rightarrow> nat \<Rightarrow> nat" where
  "import_end_loop i [] import_end = import_end"
| "import_end_loop i (line # rest) import_end =
     import_end_loop (Suc i) rest
       (if startswith line ''import '' \<or> startswith line ''from '' then i + 1 else import_end)"

definition auto_fix :: "string \<Rightarrow> string" where
  "auto_fix code =
     (let fixed_code =
            (if \<not> str_in ''import bpy'' code \<and> \<not> str_in ''from bpy'' code
             then (''import bpy'' @ [newline]) @ code else code)
      in if \<not> str_in ''bpy.ops.object.select_all'' fixed_code
         then (let lines = str_split fixed_code newline;
                   import_end = import_end_loop 0 lines 0
               in str_join [newline] (list_insert import_end clear_code lines))
         else fixed_code)"


section \<open>Python floats\<close>

text \<open>
  A Python \<open>float\<close> is an IEEE 754 binary64 number. The code only ever holds values that
  are zero or positive, so the model has the finite values \<open>m * 2 ^ e\<close> (\<open>Finite m e\<close>, with
  \<open>0 \<le> m < 2 ^ 53\<close> and \<open>- 1074 \<le> e \<le> 971\<close>), plus infinity and not-a-number. Every finite
  value is produced by \<open>round_frac\<close>, which gives each number one representation: a normal
  number has \<open>2 ^ 52 \<le> m\<close>, a subnormal number and zero have \<open>e = - 1074\<close>.
\<close>

datatype pyfloat = Finite int int | PosInf | NaN

text \<open>\<open>ilog2 n\<close> is the position of the highest set bit of \<open>n\<close> (0 for 0 and 1).\<close>

function ilog2 :: "int \<Rightarrow> int" where
  "ilog2 n = (if n < 2 then 0 else 1 + ilog2 (n div 2))"
  by pat_completeness auto
termination
  by (relation "measure nat") auto

declare ilog2.simps [simp del]

text \<open>\<open>2 ^ k\<close> for a positive \<open>k\<close>, and 1 otherwise.\<close>

definition pow2n :: "int \<Rightarrow> int" where
  "pow2n k = (if 0 < k then 2 ^ nat k else 1)"

text \<open>
  \<open>round_frac a b\<close> is the double nearest to the fraction \<open>a / b\<close> (\<open>a \<ge> 0\<close>, \<open>b > 0\<close>), ties going
  to the even mantissa: \<open>e\<close> is the binary exponent of the fraction, \<open>sp\<close> the exponent of
  the last mantissa bit (not below that of the subnormal numbers), \<open>m\<close> the fraction
  divided by \<open>2 ^ sp\<close> and rounded to an integer. A result past the largest double is
  infinity.
\<close>

definition round_frac :: "int \<Rightarrow> int \<Rightarrow> pyfloat" where
  "round_frac a b =
     (if a = 0 then Finite 0 (- 1074)
      else
        (let e0 = ilog2 a - ilog2 b;
             e = (if a * pow2n (- e0) < b * pow2n e0 then e0 - 1 else e0);
             sp = max (e - 52) (- 1074);
             num = a * pow2n (- sp);
             den = b * pow2n sp;
             q = num div den;
             r = num mod den;
             m = (if 2 * r < den then q
                  else if den < 2 * r then q + 1
                  else if even q then q else q + 1)
         in if m = 2 ^ 53 then (if 971 < sp + 1 then PosInf else Finite (2 ^ 52) (sp + 1))
            else (if 971 < sp then PosInf else Finite m sp)))"

text \<open>The product of two floats: the exact product, rounded once.\<close>

fun float_mul :: "pyfloat \<Rightarrow> pyfloat \<Rightarrow> pyfloat" where
  "float_mul (Finite m1 e1) (Finite m2 e2) =
     round_frac (m1 * m2 * pow2n (e1 + e2)) (pow2n (- (e1 + e2)))"
| "float_mul NaN y = NaN"
| "float_mul x NaN = NaN"
| "float_mul PosInf (Finite m e) = (if m = 0 then NaN else PosInf)"
| "float_mul (Finite m e) PosInf = (if m = 0 then NaN else PosInf)"
| "float_mul PosInf PosInf = PosInf"

text \<open>
  The conversion of a non-negative \<open>int\<close> operand in \<open>int * float\<close>: correctly rounded,
  \<open>OverflowError\<close> when the integer is too large for a double.
\<close>

definition float_of_nat :: "nat \<Rightarrow> py_error + pyfloat" where
  "float_of_nat n = (case round_frac (int n) 1 of PosInf \<Rightarrow> Inl OverflowError | f \<Rightarrow> Inr f)"

text \<open>\<open>n >= f\<close> for an integer \<open>n\<close> and a float \<open>f\<close>; Python compares the two exactly.\<close>

definition int_ge_float :: "nat \<Rightarrow> pyfloat \<Rightarrow> bool" where
  "int_ge_float n f =
     (case f of
        Finite m e \<Rightarrow> m * pow2n e \<le> int n * pow2n (- e)
      | PosInf \<Rightarrow> False
      | NaN \<Rightarrow> False)"

text \<open>The number a finite float stands for.\<close>

definition float_val :: "pyfloat \<Rightarrow> rat" where
  "float_val f =
     (case f of
        Finite m e \<Rightarrow> of_int (m * pow2n e) / of_int (pow2n (- e))
      | PosInf \<Rightarrow> 0
      | NaN \<Rightarrow> 0)"

definition is_digit :: "char \<Rightarrow> bool" where
  "is_digit c = (let n = of_char c :: nat in 48 \<le> n \<and> n \<le> 57)"

definition digits_value :: "string \<Rightarrow> int" where
  "digits_value ds = foldl (\<lambda>acc c. 10 * acc + (of_char c - 48)) 0 ds"

text \<open>
  \<open>float(s)\<close> for the strings the first group of the measurement pattern can hold: digits,
  then optionally a point and further digits. The conversion is correctly rounded. (Python
  accepts more forms, such as a sign or an exponent; they cannot reach this call, and the
  model gives \<open>ValueError\<close> for everything outside the form above.)
\<close>

definition py_float :: "string \<Rightarrow> py_error + pyfloat" where
  "py_float s =
     (let int_part = takeWhile is_digit s;
          r = dropWhile is_digit s
      in if int_part = [] then Inl ValueError
         else (case r of
                 [] \<Rightarrow> Inr (round_frac (digits_value int_part) 1)
               | c # frac_part \<Rightarrow>
                   if c = CHR ''.'' \<and> list_all is_digit frac_part
                   then Inr (round_frac (digits_value (int_part @ frac_part)) (10 ^ length frac_part))
                   else Inl ValueError))"


section \<open>The prompt processor (prompt_processor.py)\<close>

subsection \<open>Class constants\<close>

text \<open>Both are dictionaries; the code iterates over them, so the insertion order is kept.\<close>

definition CATEGORIES :: "(string \<times> string list) list" where
  "CATEGORIES =
     [(''modeling'',
         [''create'', ''model'', ''mesh'', ''object'', ''shape'', ''geometry'',
          ''cube'', ''sphere'', ''cylinder'', ''cone'', ''torus'', ''plane'',
          ''extrude'', ''subdivide'', ''modifier'', ''boolean'', ''array'',
          ''character'', ''building'', ''furniture'', ''vehicle'']),
      (''material'',
         [''material'', ''shader'', ''texture'', ''color'', ''metallic'',
          ''roughness'', ''glossy'', ''diffuse'', ''bsdf'', ''principled'',
          ''procedural'', ''node'', ''glass'', ''metal'', ''wood'', ''stone'']),
      (''scene'',
         [''scene'', ''lighting'', ''light'', ''camera'', ''environment'',
          ''world'', ''hdri'', ''background'', ''sun'', ''lamp'', ''composition'',
          ''render'', ''setup'', ''studio'']),
      (''animation'',
         [''animate'', ''animation'', ''keyframe'', ''motion'', ''movement'',
          ''rotate'', ''translate'', ''scale'', ''path'', ''timeline'',
          ''bounce'', ''spin'', ''move'', ''frame''])]"

text \<open>A float literal of the source is the double nearest to the decimal it writes.\<close>

definition UNITS :: "(string \<times> pyfloat) list" where
  "UNITS =
     [(''cm'', round_frac 1 100),
      (''centimeter'', round_frac 1 100),
      (''mm'', round_frac 1 1000),
      (''millimeter'', round_frac 1 1000),
      (''m'', round_frac 1 1),
      (''meter'', round_frac 1 1),
      (''inch'', round_frac 254 10000),
      (''inches'', round_frac 254 10000),
      (''ft'', round_frac 3048 10000),
      (''foot'', round_frac 3048 10000),
      (''feet'', round_frac 3048 10000)]"

subsection \<open>Category assignment\<close>

text \<open>\<open>sum(1 for keyword in keywords if keyword in prompt_lower)\<close>.\<close>

definition keyword_score :: "string list \<Rightarrow> string \<Rightarrow> nat" where
  "keyword_score keywords prompt_lower =
     length (filter (\<lambda>keyword. str_in keyword prompt_lower) keywords)"

text \<open>The loop that fills the dictionary \<open>scores\<close>, one entry for each category, in order.\<close>

definition category_scores :: "string \<Rightarrow> (string \<times> nat) list" where
  "category_scores prompt_lower =
     map (\<lambda>(category, keywords). (category, keyword_score keywords prompt_lower)) CATEGORIES"

text \<open>\<open>max(xs)\<close> of a sequence of integers: \<open>ValueError\<close> on the empty sequence.\<close>

fun py_max :: "nat list \<Rightarrow> py_error + nat" where
  "py_max [] = Inl ValueError"
| "py_max (x # xs) = Inr (fold max xs x)"

text \<open>
  \<open>max(scores, key=scores.get)\<close>: the keys are visited in order and a later key replaces
  the best one only when its value is strictly larger, so the first key among those with
  the largest value is returned.
\<close>

fun max_key_loop :: "(string \<times> nat) list \<Rightarrow> string \<times> nat \<Rightarrow> string \<times> nat" where
  "max_key_loop [] best = best"
| "max_key_loop ((k, v) # rest) (bk, bv) =
     max_key_loop rest (if bv < v then (k, v) else (bk, bv))"

definition py_max_key :: "(string \<times> nat) list \<Rightarrow> py_error + string" where
  "py_max_key scores =
     (case scores of [] \<Rightarrow> Inl ValueError | kv # rest \<Rightarrow> Inr (fst (max_key_loop rest kv)))"

definition categorize_prompt :: "string \<Rightarrow> py_error + string" where
  "categorize_prompt prompt =
     (let prompt_lower = lower prompt;
          scores = category_scores prompt_lower
      in case py_max (map snd scores) of
           Inl e \<Rightarrow> Inl e
         | Inr max_score \<Rightarrow>
             if max_score = 0 then Inr ''modeling''
             else (case float_of_nat max_score of
                     Inl e \<Rightarrow> Inl e
                   | Inr fmax \<Rightarrow>
                       (let high_scoring =
                              map fst (filter (\<lambda>(cat, score).
                                         int_ge_float score (float_mul fmax (round_frac 7 10)))
                                       scores)
                        in if 1 < length high_scoring then Inr ''mixed''
                           else py_max_key scores)))"

subsection \<open>Measurement extraction\<close>

text \<open>
  The pattern is \<open>(\d+\.?\d*)\s*(cm|centimeter|mm|millimeter|m|meter|inch|inches|ft|foot|feet)\<close>,
  the alternatives being the keys of \<open>UNITS\<close> in order, matched with \<open>re.IGNORECASE\<close>.
  \<open>match_at\<close> is one attempt of the regular-expression engine at the head of a string:
  each quantifier is greedy, and the first alternative that fits is taken. Backtracking
  cannot turn a failed attempt into a match: a shorter choice for a quantifier leaves the
  unit to be matched at a digit, a point or a blank, and every unit starts with a letter.
  The result is the two groups and the length of the whole match.
\<close>

definition unit_alternatives :: "string list" where
  "unit_alternatives = map fst UNITS"

fun match_unit :: "string list \<Rightarrow> string \<Rightarrow> string option" where
  "match_unit [] s = None"
| "match_unit (u # us) s =
     (if length u \<le> length s \<and> lower (take (length u) s) = lower u
      then Some (take (length u) s)
      else match_unit us s)"

definition match_at :: "string \<Rightarrow> (string \<times> string \<times> nat) option" where
  "match_at s =
     (let int_part = takeWhile is_digit s;
          r1 = dropWhile is_digit s
      in if int_part = [] then None
         else
           (let dot = (case r1 of [] \<Rightarrow> [] | c # cs \<Rightarrow> if c = CHR ''.'' then [c] else []);
                r2 = drop (length dot) r1;
                frac_part = takeWhile is_digit r2;
                r3 = dropWhile is_digit r2;
                blanks = takeWhile is_space r3;
                r4 = dropWhile is_space r3
            in case match_unit unit_alternatives r4 of
                 None \<Rightarrow> None
               | Some unit \<Rightarrow>
                   Some (int_part @ dot @ frac_part, unit,
                         length int_part + length dot + length frac_part + length blanks
                           + length unit)))"

text \<open>
  \<open>re.findall\<close>: attempts from left to right; after a match the scan goes on behind it
  (\<open>skip\<close> counts the characters of the match still to pass), after a failed attempt at
  the next character. With two groups the result is the list of pairs of group texts.
\<close>

fun findall_scan :: "nat \<Rightarrow> string \<Rightarrow> (string \<times> string) list" where
  "findall_scan skip [] = []"
| "findall_scan (Suc k) (c # cs) = findall_scan k cs"
| "findall_scan 0 (c # cs) =
     (case match_at (c # cs) of
        None \<Rightarrow> findall_scan 0 cs
      | Some (v, u, n) \<Rightarrow> (v, u) # findall_scan (n - 1) cs)"

definition findall :: "string \<Rightarrow> (string \<times> string) list" where
  "findall s = findall_scan 0 s"

record measurement =
  original_value :: pyfloat
  original_unit :: string
  blender_value :: pyfloat
  blender_unit :: string

text \<open>\<open>self.UNITS.get(unit.lower(), 1.0)\<close>.\<close>

definition units_get :: "string \<Rightarrow> pyfloat" where
  "units_get unit = (case map_of UNITS (lower unit) of None \<Rightarrow> round_frac 1 1 | Some f \<Rightarrow> f)"

text \<open>
  The loop over the matches. The source calls \<open>float(value)\<close> twice on the same string;
  the model calls it once.
\<close>

fun measurements_loop ::
  "(string \<times> string) list \<Rightarrow> measurement list \<Rightarrow> py_error + measurement list" where
  "measurements_loop [] measurements = Inr measurements"
| "measurements_loop ((v, unit) # rest) measurements =
     (case py_float v of
        Inl e \<Rightarrow> Inl e
      | Inr fv \<Rightarrow>
          measurements_loop rest
            (measurements @
               [\<lparr>original_value = fv, original_unit = unit,
                 blender_value = float_mul fv (units_get unit),
                 blender_unit = ''meters''\<rparr>]))"

definition extract_measurements :: "string \<Rightarrow> py_error + measurement list" where
  "extract_measurements prompt = measurements_loop (findall prompt) []"

subsection \<open>Complexity\<close>

text \<open>
  The \<open>entities\<close> argument is a dictionary; \<open>_assess_complexity\<close> only takes the length of
  each value that is a list, and counts any other value as 0.
\<close>

datatype entity_value =
    StrList "string list"
  | QuantityList "(int \<times> string) list"
  | NotAList

definition entity_len :: "entity_value \<Rightarrow> nat" where
  "entity_len v = (case v of StrList xs \<Rightarrow> length xs | QuantityList qs \<Rightarrow> length qs | NotAList \<Rightarrow> 0)"

definition complex_keywords :: "string list" where
  "complex_keywords =
     [''procedural'', ''animation'', ''rigging'', ''physics'',
      ''particle'', ''advanced'', ''realistic'', ''detailed'']"

text \<open>The value of the local variable \<open>score\<close> when \<open>_assess_complexity\<close> maps it.\<close>

definition complexity_score :: "string \<Rightarrow> (string \<times> entity_value) list \<Rightarrow> nat" where
  "complexity_score prompt entities =
     (let word_count = length (split_ws prompt);
          score1 = (if 50 < word_count then 3 else if 20 < word_count then 2 else 1);
          total_entities = sum_list (map (\<lambda>(k, v). entity_len v) entities);
          score2 = score1 + (if 10 < total_entities then 3 else if 5 < total_entities then 2 else 1)
      in if list_ex (\<lambda>keyword. str_in keyword (lower prompt)) complex_keywords
         then score2 + 2 else score2)"

definition assess_complexity :: "string \<Rightarrow> (string \<times> entity_value) list \<Rightarrow> string" where
  "assess_complexity prompt entities =
     (let score = complexity_score prompt entities
      in if score \<le> 3 then ''simple''
         else if score \<le> 6 then ''medium''
         else ''complex'')"


section \<open>Properties of the validator\<close>

lemma str_in_iff: "str_in p s \<longleftrightarrow> (\<exists>pre suf. s = pre @ p @ suf)"
proof (induction s)
  case Nil
  then show ?case by auto
next
  case (Cons c cs)
  show ?case
  proof
    assume "str_in p (c # cs)"
    then consider "prefix p (c # cs)" | "str_in p cs" by auto
    then show "\<exists>pre suf. c # cs = pre @ p @ suf"
    proof cases
      case 1
      then obtain suf where "c # cs = p @ suf" by (auto simp: prefix_def)
      then have "c # cs = [] @ p @ suf" by simp
      then show ?thesis by blast
    next
      case 2
      then obtain pre suf where "cs = pre @ p @ suf" using Cons.IH by blast
      then have "c # cs = (c # pre) @ p @ suf" by simp
      then show ?thesis by blast
    qed
  next
    assume "\<exists>pre suf. c # cs = pre @ p @ suf"
    then obtain pre suf where e: "c # cs = pre @ p @ suf" by blast
    show "str_in p (c # cs)"
    proof (cases pre)
      case Nil
      then have "prefix p (c # cs)" using e by (simp add: prefix_def)
      then show ?thesis by simp
    next
      case (Cons a pre')
      then have "cs = pre' @ p @ suf" using e by simp
      then have "str_in p cs" using Cons.IH by blast
      then show ?thesis by simp
    qed
  qed
qed

lemma str_index_total: "str_in p s \<Longrightarrow> \<exists>i. str_index s p = Inr i"
  by (induction s) (auto split: sum.splits)

lemma outside_comment_total: "str_in p line \<Longrightarrow> \<exists>b. outside_comment line p = Inr b"
proof -
  assume a: "str_in p line"
  then obtain i where i: "str_index line p = Inr i" using str_index_total by blast
  show ?thesis
  proof (cases "str_in ''#'' line")
    case True
    then obtain j where "str_index line ''#'' = Inr j" using str_index_total by blast
    then have "outside_comment line p = Inr (i < j)" using i True by (simp add: outside_comment_def)
    then show ?thesis by blast
  next
    case False
    then have "outside_comment line p = Inr True" by (simp add: outside_comment_def)
    then show ?thesis by blast
  qed
qed

lemma is_in_comment_lines_total: "\<exists>b. is_in_comment_lines ls p = Inr b"
proof (induction ls)
  case Nil
  show ?case by (rule exI[of _ True]) simp
next
  case (Cons line rest)
  show ?case
  proof (cases "str_in p line")
    case True
    then obtain b where "outside_comment line p = Inr b" using outside_comment_total by blast
    then show ?thesis using True Cons.IH by (cases b) auto
  next
    case False
    then show ?thesis using Cons.IH by simp
  qed
qed

lemma is_in_comment_total: "\<exists>b. is_in_comment code p = Inr b"
  unfolding is_in_comment_def by (rule is_in_comment_lines_total)

lemma dangerous_loop_set:
  "set (dangerous_loop code ds issues) =
     set issues \<union> {''Dangerous operation detected: '' @ d | d. d \<in> set ds \<and> str_in d code}"
  by (induction ds arbitrary: issues) auto

lemma network_loop_set:
  "set (network_loop code ops issues) =
     set issues \<union> {''Network operation detected: '' @ x | x. x \<in> set ops \<and>
        (str_in (''import '' @ x) code \<or> str_in (''from '' @ x) code)}"
  by (induction ops arbitrary: issues) auto

lemma file_ops_loop_set:
  "\<exists>r. file_ops_loop code ops issues = Inr r \<and>
     set r = set issues \<union> (\<lambda>x. ''File operation detected: '' @ x) `
        {x \<in> set ops. str_in x code \<and> is_in_comment code x = Inr False}"
proof (induction ops arbitrary: issues)
  case Nil
  show ?case by simp
next
  case (Cons x rest)
  define msg :: "string \<Rightarrow> string" where "msg = (\<lambda>x. ''File operation detected: '' @ x)"
  define sel where "sel = (\<lambda>ops. {y \<in> set ops. str_in y code \<and> is_in_comment code y = Inr False})"
  have IH: "\<exists>r. file_ops_loop code rest iss = Inr r \<and> set r = set iss \<union> msg ` sel rest" for iss
    using Cons.IH[of iss] unfolding msg_def sel_def .
  obtain b where b: "is_in_comment code x = Inr b" using is_in_comment_total by blast
  have step: "file_ops_loop code (x # rest) issues =
      file_ops_loop code rest (if str_in x code \<and> \<not> b then issues @ [msg x] else issues)"
    using b unfolding msg_def by simp
  have sel_cons: "sel (x # rest) = (if str_in x code \<and> \<not> b then {x} else {}) \<union> sel rest"
    using b unfolding sel_def by auto
  obtain r where r: "file_ops_loop code rest (if str_in x code \<and> \<not> b then issues @ [msg x] else issues) = Inr r"
    and s: "set r = set (if str_in x code \<and> \<not> b then issues @ [msg x] else issues) \<union> msg ` sel rest"
    using IH by blast
  have "set r = set issues \<union> msg ` sel (x # rest)"
    unfolding s sel_cons by auto
  then have "file_ops_loop code (x # rest) issues = Inr r \<and> set r = set issues \<union> msg ` sel (x # rest)"
    using step r by simp
  then show ?case unfolding msg_def sel_def by blast
qed

lemma dangerous_loop_image:
  "set (dangerous_loop code ds issues) =
     set issues \<union> (\<lambda>d. ''Dangerous operation detected: '' @ d) ` {d \<in> set ds. str_in d code}"
  unfolding dangerous_loop_set by auto

lemma network_loop_image:
  "set (network_loop code ops issues) =
     set issues \<union> (\<lambda>x. ''Network operation detected: '' @ x) `
       {x \<in> set ops. str_in (''import '' @ x) code \<or> str_in (''from '' @ x) code}"
  unfolding network_loop_set by auto

lemma check_security_set:
  "\<exists>issues. check_security code = Inr (issues = [], issues) \<and>
     set issues =
       (\<lambda>d. ''Dangerous operation detected: '' @ d) ` {d \<in> set DANGEROUS_IMPORTS. str_in d code}
       \<union> (\<lambda>x. ''File operation detected: '' @ x) `
            {x \<in> set file_ops. str_in x code \<and> is_in_comment code x = Inr False}
       \<union> (\<lambda>x. ''Network operation detected: '' @ x) `
            {x \<in> set network_ops. str_in (''import '' @ x) code \<or> str_in (''from '' @ x) code}"
proof -
  obtain r where r: "file_ops_loop code file_ops (dangerous_loop code DANGEROUS_IMPORTS []) = Inr r"
    and s: "set r = set (dangerous_loop code DANGEROUS_IMPORTS []) \<union>
       (\<lambda>x. ''File operation detected: '' @ x) `
          {x \<in> set file_ops. str_in x code \<and> is_in_comment code x = Inr False}"
    using file_ops_loop_set by blast
  let ?issues = "network_loop code network_ops r"
  have "check_security code = Inr (?issues = [], ?issues)"
    using r by (simp add: check_security_def Let_def)
  moreover have "set ?issues =
       (\<lambda>d. ''Dangerous operation detected: '' @ d) ` {d \<in> set DANGEROUS_IMPORTS. str_in d code}
       \<union> (\<lambda>x. ''File operation detected: '' @ x) `
            {x \<in> set file_ops. str_in x code \<and> is_in_comment code x = Inr False}
       \<union> (\<lambda>x. ''Network operation detected: '' @ x) `
            {x \<in> set network_ops. str_in (''import '' @ x) code \<or> str_in (''from '' @ x) code}"
    unfolding network_loop_image s dangerous_loop_image by simp
  ultimately show ?thesis by blast
qed

lemma validate_parsed:
  assumes "ast_parse code = Parsed"
  shows "\<exists>issues. check_security code = Inr (issues = [], issues) \<and>
     validate ast_parse code =
       Inr (issues = [], issues, check_imports code @ check_blender_api code)"
proof -
  obtain issues where i: "check_security code = Inr (issues = [], issues)"
    using check_security_set by blast
  have "validate ast_parse code = Inr (issues = [], issues, check_imports code @ check_blender_api code)"
    using assms i by (simp add: validate_def check_syntax_def)
  then show ?thesis using i by blast
qed

lemma validate_failed:
  assumes "ast_parse code \<noteq> Parsed"
  shows "validate ast_parse code = Inr (False, snd (check_syntax ast_parse code), []) \<and>
         (\<exists>msg. snd (check_syntax ast_parse code) = [msg])"
  using assms by (cases "ast_parse code") (simp_all add: validate_def check_syntax_def)

text \<open>
  Claim C7 (ValidationReport consistency). For every source text and every behaviour of
  the parser, \<open>validate\<close> returns a report (it raises nothing), and the report's
  \<open>is_valid\<close> is true exactly when its \<open>errors\<close> list is empty. This covers the early
  return after a syntax failure, where \<open>is_valid\<close> is false and \<open>errors\<close> holds one
  message, and the normal return, where \<open>is_valid\<close> is \<open>len(errors) == 0\<close>.
\<close>

theorem validate_is_valid_iff_no_errors:
  "\<exists>is_valid errors warnings.
     validate ast_parse code = Inr (is_valid, errors, warnings) \<and> (is_valid \<longleftrightarrow> errors = [])"
proof (cases "ast_parse code = Parsed")
  case True
  then show ?thesis using validate_parsed[of ast_parse code] by blast
next
  case False
  then show ?thesis using validate_failed[of ast_parse code] by auto
qed

lemma validate_example_clean:
  \<open>validate (\<lambda>s. Parsed) ''import bpy'' =
      Inr (True, [], [''Code doesn't clear existing objects - may cause conflicts''])\<close>
  by code_simp

lemma validate_example_unsafe:
  \<open>validate (\<lambda>s. Parsed) ''import socket'' =
      Inr (False, [''Network operation detected: socket''],
           [''Missing recommended import: bpy'',
            ''Code doesn't clear existing objects - may cause conflicts''])\<close>
  by code_simp

lemma validate_example_unparsable:
  \<open>validate (\<lambda>s. SyntaxError (Some 1) ''invalid syntax'') ''import socket +'' =
      Inr (False, [''Syntax Error at line 1: invalid syntax''], [])\<close>
  by code_simp

theorem validate_is_valid_iff_no_errors_witness:
  \<open>validate (\<lambda>s. Parsed) ''import bpy'' =
      Inr (True, [], [''Code doesn't clear existing objects - may cause conflicts'']) \<and>
   validate (\<lambda>s. Parsed) ''import socket'' =
      Inr (False, [''Network operation detected: socket''],
           [''Missing recommended import: bpy'',
            ''Code doesn't clear existing objects - may cause conflicts'']) \<and>
   validate (\<lambda>s. SyntaxError (Some 1) ''invalid syntax'') ''import socket +'' =
      Inr (False, [''Syntax Error at line 1: invalid syntax''], [])\<close>
  using validate_is_valid_iff_no_errors [of "\<lambda>s. Parsed" "''import bpy''"]
    validate_example_clean validate_example_unsafe validate_example_unparsable
  by simp


lemma digit_char_table:
  "list_all (\<lambda>d. is_digit (digit_char d) \<and> (of_char (digit_char d) :: int) = 48 + int d) [0..<10]"
  by code_simp

lemma digit_char_zero: "digit_char 0 = CHR ''0''"
  by code_simp

lemma of_char_zero: "(of_char (CHR ''0'') :: int) = 48"
  by code_simp

lemma digit_char_props:
  assumes "d < 10"
  shows "is_digit (digit_char d)" and "(of_char (digit_char d) :: int) = 48 + int d"
proof -
  have "d \<in> set [0..<10]" using assms by simp
  then have "is_digit (digit_char d) \<and> (of_char (digit_char d) :: int) = 48 + int d"
    using digit_char_table unfolding list_all_iff by blast
  then show "is_digit (digit_char d)" and "(of_char (digit_char d) :: int) = 48 + int d"
    by simp_all
qed

lemma digits_value_snoc:
  "digits_value (xs @ [c]) = 10 * digits_value xs + (of_char c - 48)"
  by (simp add: digits_value_def)

lemma str_of_nat_decimal:
  "str_of_nat n \<noteq> [] \<and> list_all is_digit (str_of_nat n) \<and>
   digits_value (str_of_nat n) = int n \<and>
   (hd (str_of_nat n) = CHR ''0'' \<longrightarrow> str_of_nat n = ''0'')"
proof (induction n rule: str_of_nat.induct)
  case (1 n)
  show ?case
  proof (cases "n < 10")
    case True
    have s: "str_of_nat n = [digit_char n]" using True by (subst str_of_nat.simps) simp
    have v: "digits_value [digit_char n] = int n"
      using digits_value_snoc[of "[]" "digit_char n"] digit_char_props(2)[OF True]
      by (simp add: digits_value_def)
    have z: "digit_char n = CHR ''0'' \<longrightarrow> [digit_char n] = ''0''" by simp
    show ?thesis using s v z digit_char_props(1)[OF True] by simp
  next
    case False
    define xs where "xs = str_of_nat (n div 10)"
    have m: "n mod 10 < 10" by simp
    have s: "str_of_nat n = xs @ [digit_char (n mod 10)]"
      using False unfolding xs_def by (subst str_of_nat.simps) simp
    have ih: "xs \<noteq> [] \<and> list_all is_digit xs \<and> digits_value xs = int (n div 10) \<and>
              (hd xs = CHR ''0'' \<longrightarrow> xs = ''0'')"
      using 1[OF False] unfolding xs_def .
    have "digits_value (xs @ [digit_char (n mod 10)]) = 10 * int (n div 10) + int (n mod 10)"
      using digits_value_snoc[of xs "digit_char (n mod 10)"] ih digit_char_props(2)[OF m] by simp
    also have "\<dots> = int n" by presburger
    finally have v: "digits_value (xs @ [digit_char (n mod 10)]) = int n" .
    have "hd xs \<noteq> CHR ''0''"
    proof
      assume "hd xs = CHR ''0''"
      then have "xs = ''0''" using ih by simp
      then have "digits_value xs = 0" by (simp add: digits_value_def of_char_zero)
      then have "n div 10 = 0" using ih by simp
      then show False using False by simp
    qed
    then have h: "hd (xs @ [digit_char (n mod 10)]) \<noteq> CHR ''0''" using ih by simp
    show ?thesis using s ih v h digit_char_props(1)[OF m] by simp
  qed
qed

lemma fmt_lineno_decimal:
  "(lineno = None \<longrightarrow> fmt_lineno lineno = ''None'') \<and>
   (\<forall>i. lineno = Some i \<and> 0 \<le> i \<longrightarrow>
        fmt_lineno lineno \<noteq> [] \<and> list_all is_digit (fmt_lineno lineno) \<and>
        digits_value (fmt_lineno lineno) = i \<and>
        (hd (fmt_lineno lineno) = CHR ''0'' \<longrightarrow> fmt_lineno lineno = ''0'')) \<and>
   (\<forall>i. lineno = Some i \<and> i < 0 \<longrightarrow>
        (\<exists>ds. fmt_lineno lineno = CHR ''-'' # ds \<and> ds \<noteq> [] \<and> list_all is_digit ds \<and>
              digits_value ds = - i))"
proof (cases lineno)
  case None
  then show ?thesis by (simp add: fmt_lineno_def)
next
  case (Some i)
  show ?thesis
  proof (cases "0 \<le> i")
    case True
    have "fmt_lineno lineno = str_of_nat (nat i)"
      using Some True by (simp add: fmt_lineno_def str_of_int_def)
    then show ?thesis using Some True str_of_nat_decimal[of "nat i"] by simp
  next
    case False
    have "fmt_lineno lineno = CHR ''-'' # str_of_nat (nat (- i))"
      using Some False by (simp add: fmt_lineno_def str_of_int_def)
    then show ?thesis using Some False str_of_nat_decimal[of "nat (- i)"] by simp
  qed
qed

text \<open>
  Claim C2 (syntax-error short-circuit), as amended. Whenever the parser does not accept
  the source text, \<open>validate\<close> returns \<open>is_valid = False\<close>, exactly one error and no
  warning; nothing of the security scan, the import check or the API check is in the
  result, whatever the text contains. After a \<open>SyntaxError\<close> the error is
  \<open>Syntax Error at line <lineno>: <msg>\<close>, where the line number is written in decimal
  (digits without a leading zero, a minus sign first when it is negative) and is the word
  \<open>None\<close> when the exception carries no line. After any other exception of the parser,
  which the source catches in a branch of its own, the error is
  \<open>Parsing Error: <str(e)>\<close>, and that error names no line.
\<close>

theorem validate_syntax_short_circuit:
  assumes "ast_parse code \<noteq> Parsed"
  shows "\<exists>msg. validate ast_parse code = Inr (False, [msg], []) \<and>
           (\<forall>lineno m. ast_parse code = SyntaxError lineno m \<longrightarrow>
              (\<exists>ln. msg = ''Syntax Error at line '' @ ln @ '': '' @ m \<and>
                 (lineno = None \<longrightarrow> ln = ''None'') \<and>
                 (\<forall>i. lineno = Some i \<and> 0 \<le> i \<longrightarrow>
                    ln \<noteq> [] \<and> list_all is_digit ln \<and> digits_value ln = i \<and>
                    (hd ln = CHR ''0'' \<longrightarrow> ln = ''0'')) \<and>
                 (\<forall>i. lineno = Some i \<and> i < 0 \<longrightarrow>
                    (\<exists>ds. ln = CHR ''-'' # ds \<and> ds \<noteq> [] \<and> list_all is_digit ds \<and>
                          digits_value ds = - i)))) \<and>
           (\<forall>s. ast_parse code = OtherException s \<longrightarrow> msg = ''Parsing Error: '' @ s)"
proof (cases "ast_parse code")
  case Parsed
  then show ?thesis using assms by simp
next
  case (SyntaxError lineno m)
  have v: "validate ast_parse code =
      Inr (False, [''Syntax Error at line '' @ fmt_lineno lineno @ '': '' @ m], [])"
    using SyntaxError by (simp add: validate_def check_syntax_def)
  show ?thesis using v SyntaxError fmt_lineno_decimal[of lineno] by auto
next
  case (OtherException s)
  have "validate ast_parse code = Inr (False, [''Parsing Error: '' @ s], [])"
    using OtherException by (simp add: validate_def check_syntax_def)
  then show ?thesis using OtherException by simp
qed

lemma validate_example_line_1:
  "validate (\<lambda>s. SyntaxError (Some 1) ''invalid syntax'') ''1 +''
     = Inr (False, [''Syntax Error at line 1: invalid syntax''], [])"
  by code_simp

lemma validate_example_line_12:
  "validate (\<lambda>s. SyntaxError (Some 12) ''invalid syntax'')
       (replicate 11 (CHR 0x0A) @ ''os.system(cmd) +'')
     = Inr (False, [''Syntax Error at line 12: invalid syntax''], [])"
  by code_simp

lemma check_security_example_line_12:
  "check_security (replicate 11 (CHR 0x0A) @ ''os.system(cmd) +'')
     = Inr (False, [''Dangerous operation detected: os.system''])"
  by code_simp

lemma validate_example_line_none:
  "validate (\<lambda>s. SyntaxError None ''source code string cannot contain null bytes'') [CHR 0x00]
     = Inr (False,
            [''Syntax Error at line None: source code string cannot contain null bytes''], [])"
  by code_simp

lemma validate_example_other_exception:
  "validate (\<lambda>s. OtherException ''source code string cannot contain null bytes'') [CHR 0x00]
     = Inr (False, [''Parsing Error: source code string cannot contain null bytes''], [])"
  by code_simp

lemma no_digit_in_parsing_error:
  "\<not> list_ex is_digit ''Parsing Error: source code string cannot contain null bytes''"
  by code_simp

theorem validate_syntax_short_circuit_witness:
  "validate (\<lambda>s. SyntaxError (Some 1) ''invalid syntax'') ''1 +''
     = Inr (False, [''Syntax Error at line 1: invalid syntax''], []) \<and>
   validate (\<lambda>s. SyntaxError (Some 12) ''invalid syntax'')
       (replicate 11 (CHR 0x0A) @ ''os.system(cmd) +'')
     = Inr (False, [''Syntax Error at line 12: invalid syntax''], []) \<and>
   check_security (replicate 11 (CHR 0x0A) @ ''os.system(cmd) +'')
     = Inr (False, [''Dangerous operation detected: os.system'']) \<and>
   validate (\<lambda>s. SyntaxError None ''source code string cannot contain null bytes'') [CHR 0x00]
     = Inr (False,
            [''Syntax Error at line None: source code string cannot contain null bytes''], []) \<and>
   validate (\<lambda>s. OtherException ''source code string cannot contain null bytes'') [CHR 0x00]
     = Inr (False, [''Parsing Error: source code string cannot contain null bytes''], [])"
  using validate_syntax_short_circuit
          [of "\<lambda>s. SyntaxError (Some 12) ''invalid syntax''"
              "replicate 11 (CHR 0x0A) @ ''os.system(cmd) +''"]
    validate_example_line_1 validate_example_line_12 check_security_example_line_12
    validate_example_line_none validate_example_other_exception
  by blast

text \<open>
  The claim as first stated, that the single error names the line number for every text
  that fails to parse, does not hold in the second branch: when \<open>ast.parse\<close> raises an
  exception that is not a \<open>SyntaxError\<close> (a \<open>ValueError\<close> for a text with a null byte, in
  the interpreters that raise one), the only error is the text of that exception behind
  \<open>Parsing Error: \<close>, with no digit in it.
\<close>

theorem validate_parse_error_names_no_line:
  "validate (\<lambda>s. OtherException ''source code string cannot contain null bytes'') [CHR 0x00]
     = Inr (False, [''Parsing Error: source code string cannot contain null bytes''], []) \<and>
   \<not> list_ex is_digit ''Parsing Error: source code string cannot contain null bytes'' \<and>
   \<not> prefix ''Syntax Error at line ''
        ''Parsing Error: source code string cannot contain null bytes''"
  using validate_example_other_exception no_digit_in_parsing_error by simp

text \<open>
  Claim C8 (dangerous-operation detection). For every source text that parses and
  contains the substring \<open>os.system\<close>, \<open>validate\<close> returns \<open>is_valid = False\<close> and its
  errors contain \<open>Dangerous operation detected: os.system\<close>.
\<close>

theorem validate_rejects_os_system:
  assumes "ast_parse code = Parsed" and "str_in ''os.system'' code"
  shows "\<exists>errors warnings. validate ast_parse code = Inr (False, errors, warnings) \<and>
           ''Dangerous operation detected: os.system'' \<in> set errors"
proof -
  obtain issues where c: "check_security code = Inr (issues = [], issues)"
    and v: "validate ast_parse code = Inr (issues = [], issues, check_imports code @ check_blender_api code)"
    using validate_parsed[of ast_parse code] assms(1) by blast
  obtain issues' where c': "check_security code = Inr (issues' = [], issues')"
    and s: "(\<lambda>d. ''Dangerous operation detected: '' @ d) ` {d \<in> set DANGEROUS_IMPORTS. str_in d code}
       \<subseteq> set issues'"
    using check_security_set[of code] by blast
  have "issues' = issues" using c c' by simp
  moreover have "''os.system'' \<in> {d \<in> set DANGEROUS_IMPORTS. str_in d code}"
    using assms(2) by (simp add: DANGEROUS_IMPORTS_def)
  ultimately have m: "''Dangerous operation detected: '' @ ''os.system'' \<in> set issues"
    using s by blast
  then have "issues \<noteq> []" by auto
  then show ?thesis using v m by simp
qed

theorem validate_rejects_os_system_witness:
  \<open>validate (\<lambda>s. Parsed) ''os.system("rm -rf /")'' =
     Inr (False, [''Dangerous operation detected: os.system''],
          [''Missing recommended import: bpy'',
           ''Code doesn't clear existing objects - may cause conflicts''])\<close>
  using validate_rejects_os_system [of "\<lambda>s. Parsed" \<open>''os.system("rm -rf /")''\<close>]
  by (simp add: validate_def check_syntax_def check_security_def DANGEROUS_IMPORTS_def file_ops_def
       network_ops_def check_imports_def REQUIRED_IMPORTS_def check_blender_api_def lower_def lower_char_def Let_def)

text \<open>
  Claim C9 (no comment suppression for the deny-list entry \<open>open\<close>). For every source
  text that parses and contains the substring \<open>open\<close> anywhere (in a line comment or in a
  longer identifier just as well), \<open>validate\<close> returns \<open>is_valid = False\<close> and its errors
  contain \<open>Dangerous operation detected: open\<close>. The witness is a text whose only
  \<open>open(\<close> stands inside a line comment, so that \<open>_is_in_comment\<close> holds for it.
\<close>

theorem validate_rejects_open:
  assumes "ast_parse code = Parsed" and "str_in ''open'' code"
  shows "\<exists>errors warnings. validate ast_parse code = Inr (False, errors, warnings) \<and>
           ''Dangerous operation detected: open'' \<in> set errors"
proof -
  obtain issues where c: "check_security code = Inr (issues = [], issues)"
    and v: "validate ast_parse code = Inr (issues = [], issues, check_imports code @ check_blender_api code)"
    using validate_parsed[of ast_parse code] assms(1) by blast
  obtain issues' where c': "check_security code = Inr (issues' = [], issues')"
    and s: "(\<lambda>d. ''Dangerous operation detected: '' @ d) ` {d \<in> set DANGEROUS_IMPORTS. str_in d code}
       \<subseteq> set issues'"
    using check_security_set[of code] by blast
  have "issues' = issues" using c c' by simp
  moreover have "''open'' \<in> {d \<in> set DANGEROUS_IMPORTS. str_in d code}"
    using assms(2) by (simp add: DANGEROUS_IMPORTS_def)
  ultimately have m: "''Dangerous operation detected: '' @ ''open'' \<in> set issues"
    using s by blast
  then have "issues \<noteq> []" by auto
  then show ?thesis using v m by simp
qed

lemma is_in_comment_example: "is_in_comment ''import bpy  # reopened: open(path)'' ''open('' = Inr True"
  by code_simp

theorem validate_rejects_open_witness:
  \<open>is_in_comment ''import bpy  # reopened: open(path)'' ''open('' = Inr True \<and>
   (\<exists>errors warnings.
      validate (\<lambda>s. Parsed) ''import bpy  # reopened: open(path)'' = Inr (False, errors, warnings) \<and>
      ''Dangerous operation detected: open'' \<in> set errors)\<close>
  using validate_rejects_open [of "\<lambda>s. Parsed" "''import bpy  # reopened: open(path)''"]
    is_in_comment_example
  by simp

subsection \<open>Lines, comments and file operations\<close>

lemma str_in_single: "str_in [h] s \<longleftrightarrow> h \<in> set s"
  by (induction s) auto

lemma index_order:
  assumes "h \<notin> set p" and "p \<noteq> []"
  shows "str_in p s \<Longrightarrow> str_in [h] s \<Longrightarrow>
         \<exists>i j. str_index s p = Inr i \<and> str_index s [h] = Inr j \<and>
               (i < j \<longleftrightarrow> (\<exists>pre suf. s = pre @ p @ suf \<and> h \<notin> set pre))"
proof (induction s)
  case Nil
  then show ?case using assms by simp
next
  case (Cons c cs)
  show ?case
  proof (cases "prefix p (c # cs)")
    case True
    then obtain suf where suf: "c # cs = p @ suf" by (auto simp: prefix_def)
    then have "c \<in> set p" using assms(2) by (cases p) auto
    then have ch: "c \<noteq> h" using assms(1) by auto
    then have "str_in [h] cs" using Cons.prems(2) by simp
    then obtain j where j: "str_index cs [h] = Inr j" using str_index_total by blast
    have 1: "str_index (c # cs) p = Inr 0" using True by simp
    have 2: "str_index (c # cs) [h] = Inr (Suc j)" using ch j by simp
    have "c # cs = [] @ p @ suf \<and> h \<notin> set []" using suf by simp
    then have 3: "\<exists>pre suf. c # cs = pre @ p @ suf \<and> h \<notin> set pre" by blast
    show ?thesis using 1 2 3 by simp
  next
    case False
    then have pin: "str_in p cs" using Cons.prems(1) by simp
    then obtain i where i: "str_index cs p = Inr i" using str_index_total by blast
    have 1: "str_index (c # cs) p = Inr (Suc i)" using False i by simp
    have nonempty: "pre \<noteq> []" if "c # cs = pre @ p @ suf" for pre suf
    proof
      assume "pre = []"
      then have "prefix p (c # cs)" using that by (simp add: prefix_def)
      then show False using False by simp
    qed
    show ?thesis
    proof (cases "c = h")
      case True
      have 2: "str_index (c # cs) [h] = Inr 0" using True by simp
      have "\<not> (\<exists>pre suf. c # cs = pre @ p @ suf \<and> h \<notin> set pre)"
      proof
        assume "\<exists>pre suf. c # cs = pre @ p @ suf \<and> h \<notin> set pre"
        then obtain pre suf where e: "c # cs = pre @ p @ suf" and n: "h \<notin> set pre" by blast
        then have "pre \<noteq> []" using nonempty by blast
        then obtain a pre' where "pre = a # pre'" by (cases pre) auto
        then show False using e n True by simp
      qed
      then show ?thesis using 1 2 by simp
    next
      case ch: False
      then have "str_in [h] cs" using Cons.prems(2) by simp
      then obtain i' j where i': "str_index cs p = Inr i'" and j: "str_index cs [h] = Inr j"
        and iff: "i' < j \<longleftrightarrow> (\<exists>pre suf. cs = pre @ p @ suf \<and> h \<notin> set pre)"
        using Cons.IH pin by blast
      have ii: "i' = i" using i i' by simp
      have 2: "str_index (c # cs) [h] = Inr (Suc j)" using ch j by simp
      have "(\<exists>pre suf. c # cs = pre @ p @ suf \<and> h \<notin> set pre) \<longleftrightarrow>
            (\<exists>pre suf. cs = pre @ p @ suf \<and> h \<notin> set pre)"
      proof
        assume "\<exists>pre suf. c # cs = pre @ p @ suf \<and> h \<notin> set pre"
        then obtain pre suf where e: "c # cs = pre @ p @ suf" and n: "h \<notin> set pre" by blast
        then have "pre \<noteq> []" using nonempty by blast
        then obtain a pre' where p': "pre = a # pre'" by (cases pre) auto
        then have "cs = pre' @ p @ suf \<and> h \<notin> set pre'" using e n by simp
        then show "\<exists>pre suf. cs = pre @ p @ suf \<and> h \<notin> set pre" by blast
      next
        assume "\<exists>pre suf. cs = pre @ p @ suf \<and> h \<notin> set pre"
        then obtain pre suf where e: "cs = pre @ p @ suf" and n: "h \<notin> set pre" by blast
        then have "c # cs = (c # pre) @ p @ suf \<and> h \<notin> set (c # pre)" using ch by simp
        then show "\<exists>pre suf. c # cs = pre @ p @ suf \<and> h \<notin> set pre" by blast
      qed
      then show ?thesis using 1 2 iff ii by simp
    qed
  qed
qed

lemma outside_comment_eq:
  assumes "CHR ''#'' \<notin> set p" and "p \<noteq> []" and "str_in p line"
  shows "outside_comment line p = Inr (\<exists>pre suf. line = pre @ p @ suf \<and> CHR ''#'' \<notin> set pre)"
proof (cases "str_in ''#'' line")
  case True
  then obtain i j where "str_index line p = Inr i" and "str_index line ''#'' = Inr j"
    and "i < j \<longleftrightarrow> (\<exists>pre suf. line = pre @ p @ suf \<and> CHR ''#'' \<notin> set pre)"
    using index_order[OF assms(1,2), of line] assms(3) by blast
  then show ?thesis using True by (simp add: outside_comment_def)
next
  case False
  then have n: "CHR ''#'' \<notin> set line" by (simp add: str_in_single)
  obtain pre suf where e: "line = pre @ p @ suf" using assms(3) str_in_iff by blast
  then have "CHR ''#'' \<notin> set pre" using n by auto
  then have "\<exists>pre suf. line = pre @ p @ suf \<and> CHR ''#'' \<notin> set pre" using e by blast
  then show ?thesis using False by (simp add: outside_comment_def)
qed

lemma is_in_comment_lines_eq:
  assumes "CHR ''#'' \<notin> set p" and "p \<noteq> []"
  shows "is_in_comment_lines ls p =
           Inr (\<not> (\<exists>line \<in> set ls. \<exists>pre suf. line = pre @ p @ suf \<and> CHR ''#'' \<notin> set pre))"
proof (induction ls)
  case Nil
  show ?case by simp
next
  case (Cons line rest)
  show ?case
  proof (cases "str_in p line")
    case True
    show ?thesis using True Cons.IH outside_comment_eq[OF assms True] by auto
  next
    case False
    then have "\<not> (\<exists>pre suf. line = pre @ p @ suf \<and> CHR ''#'' \<notin> set pre)"
      using str_in_iff by blast
    then show ?thesis using False Cons.IH by simp
  qed
qed

lemma str_split_nonempty: "str_split s sep \<noteq> []"
  by (induction s) (auto split: list.splits)

lemma str_join_split: "str_join [sep] (str_split s sep) = s"
proof (induction s)
  case Nil
  show ?case by simp
next
  case (Cons c cs)
  obtain l ls where l: "str_split cs sep = l # ls"
    using str_split_nonempty[of cs sep] by (cases "str_split cs sep") auto
  show ?case
  proof (cases "c = sep")
    case True
    then show ?thesis using Cons.IH l by simp
  next
    case False
    then show ?thesis using Cons.IH l by (cases ls) auto
  qed
qed

lemma str_in_append_left: "str_in p s \<Longrightarrow> str_in p (a @ s)"
proof -
  assume "str_in p s"
  then obtain pre suf where "s = pre @ p @ suf" using str_in_iff by blast
  then have "a @ s = (a @ pre) @ p @ suf" by simp
  then show ?thesis using str_in_iff by blast
qed

lemma str_in_append_right: "str_in p s \<Longrightarrow> str_in p (s @ a)"
proof -
  assume "str_in p s"
  then obtain pre suf where "s = pre @ p @ suf" using str_in_iff by blast
  then have "s @ a = pre @ p @ (suf @ a)" by simp
  then show ?thesis using str_in_iff by blast
qed

lemma str_in_join: "l \<in> set ls \<Longrightarrow> str_in p l \<Longrightarrow> str_in p (str_join sep ls)"
proof (induction sep ls rule: str_join.induct)
  case (1 sep)
  then show ?case by simp
next
  case (2 sep x)
  then show ?case by simp
next
  case (3 sep x y ys)
  show ?case
  proof (cases "l = x")
    case True
    then show ?thesis using 3 by (simp add: str_in_append_right)
  next
    case False
    then have "str_in p (str_join sep (y # ys))" using 3 by simp
    then have "str_in p (x @ sep @ str_join sep (y # ys))"
      using str_in_append_left[of p _ "x @ sep"] by simp
    then show ?thesis by simp
  qed
qed

lemma str_in_line: "l \<in> set (str_split s sep) \<Longrightarrow> str_in p l \<Longrightarrow> str_in p s"
  using str_in_join[of l "str_split s sep" p "[sep]"] by (simp add: str_join_split)

lemma str_in_some_line:
  "sep \<notin> set p \<Longrightarrow> str_in p s \<Longrightarrow> \<exists>l \<in> set (str_split s sep). str_in p l"
proof (induction s)
  case Nil
  then show ?case by simp
next
  case (Cons c cs)
  obtain l ls where l: "str_split cs sep = l # ls"
    using str_split_nonempty[of cs sep] by (cases "str_split cs sep") auto
  show ?case
  proof (cases "prefix p (c # cs)")
    case True
    show ?thesis
    proof (cases p)
      case Nil
      then show ?thesis using l by (cases "c = sep") auto
    next
      case (Cons a p')
      then have ac: "a = c" and pp: "prefix p' cs" using True by auto
      have csep: "c \<noteq> sep" using Cons.prems(1) Cons ac by auto
      have "sep \<notin> set p'" using Cons.prems(1) Cons by auto
      then have "prefix p' l" using pp l
      proof (induction cs arbitrary: p' l ls)
        case Nil
        then show ?case by simp
      next
        case (Cons d ds)
        obtain m ms where m: "str_split ds sep = m # ms"
          using str_split_nonempty[of ds sep] by (cases "str_split ds sep") auto
        show ?case
        proof (cases p')
          case Nil
          then show ?thesis by simp
        next
          case (Cons b q)
          then have bd: "b = d" and pq: "prefix q ds" using Cons.prems(2) by auto
          have dsep: "d \<noteq> sep" using Cons.prems(1) Cons bd by auto
          have "sep \<notin> set q" using Cons.prems(1) Cons by auto
          then have "prefix q m" using Cons.IH pq m by blast
          moreover have "l = d # m" using Cons.prems(3) dsep m by simp
          ultimately show ?thesis using Cons bd by simp
        qed
      qed
      then have "prefix p (c # l)" using Cons ac by simp
      then have "str_in p (c # l)" by simp
      moreover have "str_split (c # cs) sep = (c # l) # ls" using csep l by simp
      ultimately show ?thesis by simp
    qed
  next
    case False
    then have "str_in p cs" using Cons.prems(2) by simp
    then obtain k where k: "k \<in> set (str_split cs sep)" and pk: "str_in p k"
      using Cons.IH Cons.prems(1) by blast
    show ?thesis
    proof (cases "c = sep")
      case True
      then show ?thesis using k pk by auto
    next
      case csep: False
      then have s: "str_split (c # cs) sep = (c # l) # ls" using l by simp
      show ?thesis
      proof (cases "k = l")
        case True
        then have "str_in p (c # l)" using pk by simp
        then show ?thesis using s by simp
      next
        case False
        then have "k \<in> set ls" using k l by simp
        then show ?thesis using s pk by auto
      qed
    qed
  qed
qed

lemma file_msg_inj:
  "(''File operation detected: '' @ x = ''File operation detected: '' @ y) = (x = y)"
  by simp

lemma file_msg_not_dangerous:
  "''File operation detected: '' @ x \<noteq> ''Dangerous operation detected: '' @ y"
  by simp

lemma file_msg_not_network:
  "''File operation detected: '' @ x \<noteq> ''Network operation detected: '' @ y"
  by simp

lemma file_ops_no_hash: "x \<in> set file_ops \<Longrightarrow> CHR ''#'' \<notin> set x \<and> x \<noteq> []"
  by (auto simp: file_ops_def)

lemma file_msg_mem_iff:
  assumes "check_security code = Inr (is_safe, issues)"
  shows "''File operation detected: '' @ x \<in> set issues \<longleftrightarrow>
         x \<in> set file_ops \<and> str_in x code \<and> is_in_comment code x = Inr False"
proof -
  define D where "D = (\<lambda>d. ''Dangerous operation detected: '' @ d) ` {d \<in> set DANGEROUS_IMPORTS. str_in d code}"
  define N where "N = (\<lambda>x. ''Network operation detected: '' @ x) `
            {x \<in> set network_ops. str_in (''import '' @ x) code \<or> str_in (''from '' @ x) code}"
  define F where "F = {x \<in> set file_ops. str_in x code \<and> is_in_comment code x = Inr False}"
  obtain issues' where c: "check_security code = Inr (issues' = [], issues')"
    and s: "set issues' = D \<union> (\<lambda>x. ''File operation detected: '' @ x) ` F \<union> N"
    using check_security_set[of code] unfolding D_def N_def F_def by blast
  have e: "issues' = issues" using c assms by simp
  have 1: "''File operation detected: '' @ x \<notin> D"
    unfolding D_def using file_msg_not_dangerous by blast
  have 2: "''File operation detected: '' @ x \<notin> N"
    unfolding N_def using file_msg_not_network by blast
  have 3: "''File operation detected: '' @ x \<in> (\<lambda>x. ''File operation detected: '' @ x) ` F \<longleftrightarrow> x \<in> F"
    using file_msg_inj by blast
  have "''File operation detected: '' @ x \<in> set issues \<longleftrightarrow> x \<in> F"
    using s e 1 2 3 by blast
  then show ?thesis unfolding F_def by simp
qed

lemma file_op_flagged_lines:
  assumes "op \<in> set file_ops"
  shows "\<exists>is_safe issues. check_security code = Inr (is_safe, issues) \<and>
           (ast_parse code = Parsed \<longrightarrow>
              (\<exists>warnings. validate ast_parse code = Inr (is_safe, issues, warnings))) \<and>
           (''File operation detected: '' @ op \<in> set issues \<longleftrightarrow>
              (\<exists>line \<in> set (str_split code newline).
                 \<exists>pre suf. line = pre @ op @ suf \<and> CHR ''#'' \<notin> set pre))"
proof -
  obtain issues where c: "check_security code = Inr (issues = [], issues)"
    using check_security_set[of code] by blast
  have h: "CHR ''#'' \<notin> set op" and ne: "op \<noteq> []" using file_ops_no_hash[OF assms] by simp_all
  let ?flag = "\<exists>line \<in> set (str_split code newline).
                 \<exists>pre suf. line = pre @ op @ suf \<and> CHR ''#'' \<notin> set pre"
  have ic: "is_in_comment code op = Inr (\<not> ?flag)"
    unfolding is_in_comment_def using is_in_comment_lines_eq[OF h ne] by simp
  have "str_in op code" if "?flag"
  proof -
    from that obtain line pre suf where l: "line \<in> set (str_split code newline)"
      and e: "line = pre @ op @ suf" by blast
    then have "str_in op line" using str_in_iff by blast
    then show ?thesis using l str_in_line[of line code newline op] by simp
  qed
  then have "(op \<in> set file_ops \<and> str_in op code \<and> is_in_comment code op = Inr False) \<longleftrightarrow> ?flag"
    using assms ic by auto
  then have "''File operation detected: '' @ op \<in> set issues \<longleftrightarrow> ?flag"
    using file_msg_mem_iff[OF c, of op] by simp
  moreover have "ast_parse code = Parsed \<longrightarrow>
      (\<exists>warnings. validate ast_parse code = Inr (issues = [], issues, warnings))"
    using validate_parsed[of ast_parse code] c by auto
  ultimately show ?thesis using c by blast
qed

lemma takeWhile_segment:
  "(s = line @ b \<and> sep \<notin> set line \<and> (b = [] \<or> hd b = sep)) \<longleftrightarrow>
   (line = takeWhile (\<lambda>x. x \<noteq> sep) s \<and> b = dropWhile (\<lambda>x. x \<noteq> sep) s)"
proof
  assume a: "s = line @ b \<and> sep \<notin> set line \<and> (b = [] \<or> hd b = sep)"
  then have all: "\<And>x. x \<in> set line \<Longrightarrow> x \<noteq> sep" by auto
  have tb: "takeWhile (\<lambda>x. x \<noteq> sep) b = []" using a by (cases b) auto
  have db: "dropWhile (\<lambda>x. x \<noteq> sep) b = b" using a by (cases b) auto
  have "takeWhile (\<lambda>x. x \<noteq> sep) (line @ b) = line"
    using all tb by (simp add: takeWhile_append2)
  moreover have "dropWhile (\<lambda>x. x \<noteq> sep) (line @ b) = b"
    using all db by (simp add: dropWhile_append2)
  ultimately show "line = takeWhile (\<lambda>x. x \<noteq> sep) s \<and> b = dropWhile (\<lambda>x. x \<noteq> sep) s"
    using a by simp
next
  assume a: "line = takeWhile (\<lambda>x. x \<noteq> sep) s \<and> b = dropWhile (\<lambda>x. x \<noteq> sep) s"
  have 1: "s = line @ b" using a by simp
  have 2: "sep \<notin> set line" using a set_takeWhileD by fastforce
  have 3: "b = [] \<or> hd b = sep" using a hd_dropWhile[of "\<lambda>x. x \<noteq> sep" s] by auto
  show "s = line @ b \<and> sep \<notin> set line \<and> (b = [] \<or> hd b = sep)" using 1 2 3 by simp
qed

lemma str_split_head_tail:
  "hd (str_split s sep) = takeWhile (\<lambda>x. x \<noteq> sep) s \<and>
   (\<forall>line. line \<in> set (tl (str_split s sep)) \<longleftrightarrow>
      (\<exists>a b. s = a @ line @ b \<and> sep \<notin> set line \<and> a \<noteq> [] \<and> last a = sep \<and>
             (b = [] \<or> hd b = sep)))"
proof (induction s)
  case Nil
  show ?case by simp
next
  case (Cons c cs)
  obtain l ls where l: "str_split cs sep = l # ls"
    using str_split_nonempty[of cs sep] by (cases "str_split cs sep") auto
  have hl: "l = takeWhile (\<lambda>x. x \<noteq> sep) cs" using Cons.IH l by simp
  have tls: "\<And>line. line \<in> set ls \<longleftrightarrow>
      (\<exists>a b. cs = a @ line @ b \<and> sep \<notin> set line \<and> a \<noteq> [] \<and> last a = sep \<and>
             (b = [] \<or> hd b = sep))"
    using Cons.IH l by simp
  show ?case
  proof (cases "c = sep")
    case True
    have sp: "str_split (c # cs) sep = [] # l # ls" using True l by simp
    have "line \<in> set (l # ls) \<longleftrightarrow>
      (\<exists>a b. c # cs = a @ line @ b \<and> sep \<notin> set line \<and> a \<noteq> [] \<and> last a = sep \<and>
             (b = [] \<or> hd b = sep))" for line
    proof
      assume "line \<in> set (l # ls)"
      then consider "line = l" | "line \<in> set ls" by auto
      then show "\<exists>a b. c # cs = a @ line @ b \<and> sep \<notin> set line \<and> a \<noteq> [] \<and> last a = sep \<and>
             (b = [] \<or> hd b = sep)"
      proof cases
        case 1
        define b where "b = dropWhile (\<lambda>x. x \<noteq> sep) cs"
        have "cs = line @ b \<and> sep \<notin> set line \<and> (b = [] \<or> hd b = sep)"
          using takeWhile_segment[of cs line b sep] 1 hl b_def by simp
        then have "c # cs = [c] @ line @ b \<and> sep \<notin> set line \<and> [c] \<noteq> [] \<and> last [c] = sep \<and>
             (b = [] \<or> hd b = sep)" using True by simp
        then show ?thesis by blast
      next
        case 2
        then obtain a b where "cs = a @ line @ b" "sep \<notin> set line" "a \<noteq> []" "last a = sep"
             "b = [] \<or> hd b = sep" using tls by blast
        then have "c # cs = (c # a) @ line @ b \<and> sep \<notin> set line \<and> c # a \<noteq> [] \<and>
             last (c # a) = sep \<and> (b = [] \<or> hd b = sep)" by simp
        then show ?thesis by blast
      qed
    next
      assume "\<exists>a b. c # cs = a @ line @ b \<and> sep \<notin> set line \<and> a \<noteq> [] \<and> last a = sep \<and>
             (b = [] \<or> hd b = sep)"
      then obtain a b where e: "c # cs = a @ line @ b" and n: "sep \<notin> set line" and ne: "a \<noteq> []"
        and la: "last a = sep" and bb: "b = [] \<or> hd b = sep" by blast
      obtain a' where a': "a = c # a'" using e ne by (cases a) auto
      then have cs: "cs = a' @ line @ b" using e by simp
      show "line \<in> set (l # ls)"
      proof (cases "a' = []")
        case True
        then have "cs = line @ b \<and> sep \<notin> set line \<and> (b = [] \<or> hd b = sep)" using cs n bb by simp
        then have "line = l" using takeWhile_segment[of cs line b sep] hl by simp
        then show ?thesis by simp
      next
        case False
        then have "last a' = sep" using la a' by simp
        then have "line \<in> set ls" using tls cs n bb False by blast
        then show ?thesis by simp
      qed
    qed
    then show ?thesis using sp True by simp
  next
    case False
    have sp: "str_split (c # cs) sep = (c # l) # ls" using False l by simp
    have "line \<in> set ls \<longleftrightarrow>
      (\<exists>a b. c # cs = a @ line @ b \<and> sep \<notin> set line \<and> a \<noteq> [] \<and> last a = sep \<and>
             (b = [] \<or> hd b = sep))" for line
    proof
      assume "line \<in> set ls"
      then obtain a b where "cs = a @ line @ b" "sep \<notin> set line" "a \<noteq> []" "last a = sep"
             "b = [] \<or> hd b = sep" using tls by blast
      then have "c # cs = (c # a) @ line @ b \<and> sep \<notin> set line \<and> c # a \<noteq> [] \<and>
             last (c # a) = sep \<and> (b = [] \<or> hd b = sep)" by simp
      then show "\<exists>a b. c # cs = a @ line @ b \<and> sep \<notin> set line \<and> a \<noteq> [] \<and> last a = sep \<and>
             (b = [] \<or> hd b = sep)" by blast
    next
      assume "\<exists>a b. c # cs = a @ line @ b \<and> sep \<notin> set line \<and> a \<noteq> [] \<and> last a = sep \<and>
             (b = [] \<or> hd b = sep)"
      then obtain a b where e: "c # cs = a @ line @ b" and n: "sep \<notin> set line" and ne: "a \<noteq> []"
        and la: "last a = sep" and bb: "b = [] \<or> hd b = sep" by blast
      obtain a' where a': "a = c # a'" using e ne by (cases a) auto
      then have cs: "cs = a' @ line @ b" using e by simp
      have "a' \<noteq> []" using la a' False by auto
      moreover from this have "last a' = sep" using la a' by simp
      ultimately show "line \<in> set ls" using tls cs n bb by blast
    qed
    moreover have "hd (str_split (c # cs) sep) = takeWhile (\<lambda>x. x \<noteq> sep) (c # cs)"
      using sp hl False by simp
    ultimately show ?thesis using sp by simp
  qed
qed

lemma str_split_lines:
  "line \<in> set (str_split s sep) \<longleftrightarrow>
     (\<exists>a b. s = a @ line @ b \<and> sep \<notin> set line \<and> (a = [] \<or> last a = sep) \<and>
            (b = [] \<or> hd b = sep))"
proof -
  obtain l ls where l: "str_split s sep = l # ls"
    using str_split_nonempty[of s sep] by (cases "str_split s sep") auto
  have hl: "l = takeWhile (\<lambda>x. x \<noteq> sep) s" using str_split_head_tail[of s sep] l by simp
  have tls: "\<And>line. line \<in> set ls \<longleftrightarrow>
      (\<exists>a b. s = a @ line @ b \<and> sep \<notin> set line \<and> a \<noteq> [] \<and> last a = sep \<and>
             (b = [] \<or> hd b = sep))"
    using str_split_head_tail[of s sep] l by simp
  have first: "line = l \<longleftrightarrow> (\<exists>b. s = [] @ line @ b \<and> sep \<notin> set line \<and> (b = [] \<or> hd b = sep))"
    using takeWhile_segment[of s line _ sep] hl by auto
  show ?thesis
  proof
    assume "line \<in> set (str_split s sep)"
    then consider "line = l" | "line \<in> set ls" using l by auto
    then show "\<exists>a b. s = a @ line @ b \<and> sep \<notin> set line \<and> (a = [] \<or> last a = sep) \<and>
            (b = [] \<or> hd b = sep)"
    proof cases
      case 1
      then obtain b where "s = [] @ line @ b \<and> sep \<notin> set line \<and> (b = [] \<or> hd b = sep)"
        using first by blast
      then show ?thesis by blast
    next
      case 2
      then show ?thesis using tls by blast
    qed
  next
    assume "\<exists>a b. s = a @ line @ b \<and> sep \<notin> set line \<and> (a = [] \<or> last a = sep) \<and>
            (b = [] \<or> hd b = sep)"
    then obtain a b where e: "s = a @ line @ b" and n: "sep \<notin> set line"
      and aa: "a = [] \<or> last a = sep" and bb: "b = [] \<or> hd b = sep" by blast
    show "line \<in> set (str_split s sep)"
    proof (cases "a = []")
      case True
      then have "line = l" using first e n bb by auto
      then show ?thesis using l by simp
    next
      case False
      then have "line \<in> set ls" using tls e n aa bb by blast
      then show ?thesis using l by simp
    qed
  qed
qed

lemma flagged_line_iff:
  assumes "newline \<notin> set op"
  shows "(\<exists>line \<in> set (str_split code newline).
            \<exists>pre suf. line = pre @ op @ suf \<and> CHR ''#'' \<notin> set pre) \<longleftrightarrow>
         (\<exists>before pre rest. code = before @ pre @ op @ rest \<and>
            (before = [] \<or> last before = newline) \<and>
            newline \<notin> set pre \<and> CHR ''#'' \<notin> set pre)"
proof
  assume "\<exists>line \<in> set (str_split code newline).
            \<exists>pre suf. line = pre @ op @ suf \<and> CHR ''#'' \<notin> set pre"
  then obtain line pre suf where l: "line \<in> set (str_split code newline)"
    and e: "line = pre @ op @ suf" and h: "CHR ''#'' \<notin> set pre" by blast
  obtain a b where c: "code = a @ line @ b" and n: "newline \<notin> set line"
    and aa: "a = [] \<or> last a = newline"
    using l str_split_lines[of line code newline] by blast
  have "code = a @ pre @ op @ (suf @ b)" using c e by simp
  moreover have "newline \<notin> set pre" using n e by simp
  ultimately show "\<exists>before pre rest. code = before @ pre @ op @ rest \<and>
            (before = [] \<or> last before = newline) \<and>
            newline \<notin> set pre \<and> CHR ''#'' \<notin> set pre"
    using aa h by blast
next
  assume "\<exists>before pre rest. code = before @ pre @ op @ rest \<and>
            (before = [] \<or> last before = newline) \<and>
            newline \<notin> set pre \<and> CHR ''#'' \<notin> set pre"
  then obtain before pre rest where c: "code = before @ pre @ op @ rest"
    and bb: "before = [] \<or> last before = newline"
    and n: "newline \<notin> set pre" and h: "CHR ''#'' \<notin> set pre" by blast
  define suf where "suf = takeWhile (\<lambda>x. x \<noteq> newline) rest"
  define b where "b = dropWhile (\<lambda>x. x \<noteq> newline) rest"
  have r: "rest = suf @ b \<and> newline \<notin> set suf \<and> (b = [] \<or> hd b = newline)"
    using takeWhile_segment[of rest suf b newline] suf_def b_def by simp
  define line where "line = pre @ op @ suf"
  have "code = before @ line @ b" using c r line_def by simp
  moreover have "newline \<notin> set line" using n assms r line_def by simp
  ultimately have "line \<in> set (str_split code newline)"
    using str_split_lines[of line code newline] bb r by blast
  then show "\<exists>line \<in> set (str_split code newline).
            \<exists>pre suf. line = pre @ op @ suf \<and> CHR ''#'' \<notin> set pre"
    using line_def h by blast
qed


text \<open>
  Claim C3 (comment suppression for file operations). For each of the five file-operation
  substrings, the security scan returns a list of issues (it raises nothing) that holds
  \<open>File operation detected: <op>\<close> exactly when the substring occurs somewhere in the text
  with neither a \<open>#\<close> nor a line feed between the start of its line and the occurrence:
  the text is \<open>before @ pre @ op @ rest\<close>, where \<open>before\<close> is empty or ends with a line
  feed and \<open>pre\<close> holds no line feed and no \<open>#\<close>. So the entry is missing when every
  occurrence on every line follows a \<open>#\<close> of that line, and present as soon as one line has
  the substring before any \<open>#\<close> or has it and no \<open>#\<close> at all; a \<open>#\<close> on another line
  changes nothing. The same is said with the lines of \<open>code.split('\n')\<close>, which are
  exactly the pieces of the text that hold no line feed and are bounded by line feeds or
  the ends of the text. The scan does not look at the syntax tree, so this holds for every
  text, parsable or not; for a parsable text \<open>validate\<close> returns these issues as its
  errors. The deny-list entry \<open>open\<close> is a separate message,
  \<open>Dangerous operation detected: open\<close>, and is not suppressed.
\<close>

lemma file_ops_no_newline: "x \<in> set file_ops \<Longrightarrow> newline \<notin> set x"
  by (auto simp: file_ops_def newline_def)

theorem file_operation_flagged_iff_outside_comment:
  assumes "op \<in> set file_ops"
  shows "\<exists>is_safe issues. check_security code = Inr (is_safe, issues) \<and>
           (ast_parse code = Parsed \<longrightarrow>
              (\<exists>warnings. validate ast_parse code = Inr (is_safe, issues, warnings))) \<and>
           (''File operation detected: '' @ op \<in> set issues \<longleftrightarrow>
              (\<exists>before pre rest. code = before @ pre @ op @ rest \<and>
                 (before = [] \<or> last before = CHR 0x0A) \<and>
                 CHR 0x0A \<notin> set pre \<and> CHR ''#'' \<notin> set pre)) \<and>
           (''File operation detected: '' @ op \<in> set issues \<longleftrightarrow>
              (\<exists>line \<in> set (str_split code newline).
                 \<exists>pre suf. line = pre @ op @ suf \<and> CHR ''#'' \<notin> set pre)) \<and>
           (\<forall>line. line \<in> set (str_split code newline) \<longleftrightarrow>
              (\<exists>a b. code = a @ line @ b \<and> CHR 0x0A \<notin> set line \<and>
                 (a = [] \<or> last a = CHR 0x0A) \<and> (b = [] \<or> hd b = CHR 0x0A)))"
proof -
  obtain is_safe issues where c: "check_security code = Inr (is_safe, issues)"
    and v: "ast_parse code = Parsed \<longrightarrow>
              (\<exists>warnings. validate ast_parse code = Inr (is_safe, issues, warnings))"
    and f: "''File operation detected: '' @ op \<in> set issues \<longleftrightarrow>
              (\<exists>line \<in> set (str_split code newline).
                 \<exists>pre suf. line = pre @ op @ suf \<and> CHR ''#'' \<notin> set pre)"
    using file_op_flagged_lines[OF assms, of code ast_parse] by blast
  have g: "''File operation detected: '' @ op \<in> set issues \<longleftrightarrow>
              (\<exists>before pre rest. code = before @ pre @ op @ rest \<and>
                 (before = [] \<or> last before = CHR 0x0A) \<and>
                 CHR 0x0A \<notin> set pre \<and> CHR ''#'' \<notin> set pre)"
    using f flagged_line_iff[OF file_ops_no_newline[OF assms], of code]
    unfolding newline_def by simp
  have l: "\<forall>line. line \<in> set (str_split code newline) \<longleftrightarrow>
              (\<exists>a b. code = a @ line @ b \<and> CHR 0x0A \<notin> set line \<and>
                 (a = [] \<or> last a = CHR 0x0A) \<and> (b = [] \<or> hd b = CHR 0x0A))"
    using str_split_lines[of _ code newline] unfolding newline_def by simp
  show ?thesis using c v f g l by blast
qed

lemma check_security_example_flagged:
  "check_security ''data = open(path)  # open( the file'' =
     Inr (False, [''Dangerous operation detected: open'', ''File operation detected: open(''])"
  by code_simp

lemma check_security_example_suppressed:
  "check_security ''x = 1  # then write(x)'' = Inr (True, [])"
  by code_simp

lemma check_security_example_second_line:
  "check_security (''# note'' @ [CHR 0x0A] @ ''f.write(x)'') =
     Inr (False, [''File operation detected: write(''])"
  by code_simp

lemma check_security_example_comment_second_line:
  "check_security (''x = 1'' @ [CHR 0x0A] @ ''y = 2  # then write(x)'') = Inr (True, [])"
  by code_simp

lemma check_security_example_two_lines:
  "check_security (''f.read()  # read( it'' @ [CHR 0x0A] @ ''# done: remove(f)'') =
     Inr (False, [''File operation detected: read(''])"
  by code_simp


theorem file_operation_flagged_iff_outside_comment_witness:
  "''open('' \<in> set file_ops \<and>
   check_security ''data = open(path)  # open( the file'' =
     Inr (False, [''Dangerous operation detected: open'', ''File operation detected: open('']) \<and>
   ''write('' \<in> set file_ops \<and>
   check_security ''x = 1  # then write(x)'' = Inr (True, []) \<and>
   check_security (''# note'' @ [CHR 0x0A] @ ''f.write(x)'') =
     Inr (False, [''File operation detected: write('']) \<and>
   check_security (''x = 1'' @ [CHR 0x0A] @ ''y = 2  # then write(x)'') = Inr (True, []) \<and>
   ''read('' \<in> set file_ops \<and> ''remove('' \<in> set file_ops \<and>
   check_security (''f.read()  # read( it'' @ [CHR 0x0A] @ ''# done: remove(f)'') =
     Inr (False, [''File operation detected: read(''])"
  using file_operation_flagged_iff_outside_comment
      [of "''write(''" "''# note'' @ [CHR 0x0A] @ ''f.write(x)''" "\<lambda>s. Parsed"]
    check_security_example_flagged check_security_example_suppressed
    check_security_example_second_line check_security_example_comment_second_line
    check_security_example_two_lines
  by (simp add: file_ops_def)

lemma set_list_insert: "set (list_insert i x xs) = insert x (set xs)"
proof -
  have "set (take i xs) \<union> set (drop i xs) = set xs"
    by (metis append_take_drop_id set_append)
  then show ?thesis by (auto simp: list_insert_def)
qed

lemma str_in_after_insert:
  assumes "sep \<notin> set p" and "str_in p s"
  shows "str_in p (str_join [sep] (list_insert i x (str_split s sep)))"
proof -
  obtain l where "l \<in> set (str_split s sep)" and pl: "str_in p l"
    using str_in_some_line[OF assms] by blast
  then have "l \<in> set (list_insert i x (str_split s sep))" by (simp add: set_list_insert)
  then show ?thesis using pl str_in_join by blast
qed

lemma str_in_inserted:
  assumes "str_in p x"
  shows "str_in p (str_join sep (list_insert i x ls))"
proof -
  have "x \<in> set (list_insert i x ls)" by (simp add: set_list_insert)
  then show ?thesis using assms str_in_join by blast
qed

lemma clear_code_has_select_all: "str_in ''bpy.ops.object.select_all'' clear_code"
  by code_simp

lemma auto_fix_has_import:
  "str_in ''import bpy'' (auto_fix s) \<or> str_in ''from bpy'' (auto_fix s)"
proof -
  define f where "f = (if \<not> str_in ''import bpy'' s \<and> \<not> str_in ''from bpy'' s
             then (''import bpy'' @ [newline]) @ s else s)"
  have "str_in ''import bpy'' (''import bpy'' @ ([newline] @ s))"
    using str_in_append_right[of "''import bpy''" "''import bpy''" "[newline] @ s"] by simp
  then have f: "str_in ''import bpy'' f \<or> str_in ''from bpy'' f"
    unfolding f_def by auto
  have n1: "newline \<notin> set ''import bpy''" and n2: "newline \<notin> set ''from bpy''"
    by (simp_all add: newline_def)
  have r: "auto_fix s = (if \<not> str_in ''bpy.ops.object.select_all'' f
         then str_join [newline] (list_insert (import_end_loop 0 (str_split f newline) 0) clear_code (str_split f newline))
         else f)"
    unfolding auto_fix_def f_def Let_def by simp
  show ?thesis
  proof (cases "str_in ''bpy.ops.object.select_all'' f")
    case True
    then show ?thesis using r f by simp
  next
    case False
    then show ?thesis using r f str_in_after_insert[OF n1] str_in_after_insert[OF n2] by auto
  qed
qed

lemma auto_fix_has_clear: "str_in ''bpy.ops.object.select_all'' (auto_fix s)"
proof -
  define f where "f = (if \<not> str_in ''import bpy'' s \<and> \<not> str_in ''from bpy'' s
             then (''import bpy'' @ [newline]) @ s else s)"
  have r: "auto_fix s = (if \<not> str_in ''bpy.ops.object.select_all'' f
         then str_join [newline] (list_insert (import_end_loop 0 (str_split f newline) 0) clear_code (str_split f newline))
         else f)"
    unfolding auto_fix_def f_def Let_def by simp
  show ?thesis
  proof (cases "str_in ''bpy.ops.object.select_all'' f")
    case True
    then show ?thesis using r by simp
  next
    case False
    then show ?thesis using r str_in_inserted[OF clear_code_has_select_all] by simp
  qed
qed

lemma auto_fix_unchanged:
  assumes "str_in ''import bpy'' s \<or> str_in ''from bpy'' s"
    and "str_in ''bpy.ops.object.select_all'' s"
  shows "auto_fix s = s"
  using assms unfolding auto_fix_def Let_def by auto

text \<open>
  Claim C4 (auto-fix idempotence). Applying \<open>auto_fix\<close> twice gives what applying it
  once gives, for every source text; and a text that already contains \<open>import bpy\<close> (or
  \<open>from bpy\<close>) and the clearing call \<open>bpy.ops.object.select_all\<close>, which the clearing
  snippet contains, is returned unchanged, so neither insertion is duplicated.
\<close>

theorem auto_fix_idempotent:
  "auto_fix (auto_fix s) = auto_fix s \<and>
   ((str_in ''import bpy'' s \<or> str_in ''from bpy'' s) \<and>
      str_in ''bpy.ops.object.select_all'' s \<longrightarrow> auto_fix s = s)"
  using auto_fix_unchanged[of s] auto_fix_unchanged[of "auto_fix s"]
    auto_fix_has_import[of s] auto_fix_has_clear[of s]
  by blast

lemma auto_fix_example:
  "auto_fix ''x = 1'' =
     ''import bpy'' @ [newline] @ clear_code @ [newline] @ ''x = 1''"
  by code_simp

lemma auto_fix_example_contains:
  "str_in ''import bpy'' (''import bpy'' @ [newline] @ clear_code @ [newline] @ ''x = 1'') \<and>
   str_in ''bpy.ops.object.select_all'' (''import bpy'' @ [newline] @ clear_code @ [newline] @ ''x = 1'')"
  by code_simp

theorem auto_fix_idempotent_witness:
  "auto_fix ''x = 1'' = ''import bpy'' @ [newline] @ clear_code @ [newline] @ ''x = 1'' \<and>
   str_in ''import bpy'' (''import bpy'' @ [newline] @ clear_code @ [newline] @ ''x = 1'') \<and>
   str_in ''bpy.ops.object.select_all'' (''import bpy'' @ [newline] @ clear_code @ [newline] @ ''x = 1'') \<and>
   auto_fix (''import bpy'' @ [newline] @ clear_code @ [newline] @ ''x = 1'') =
     ''import bpy'' @ [newline] @ clear_code @ [newline] @ ''x = 1''"
  using auto_fix_idempotent [of "''import bpy'' @ [newline] @ clear_code @ [newline] @ ''x = 1''"]
    auto_fix_example auto_fix_example_contains
  by blast



section \<open>Properties of the prompt processor\<close>

subsection \<open>Category assignment and complexity\<close>

lemma threshold_table:
  "list_all (\<lambda>m. list_all (\<lambda>s.
      (case float_of_nat m of
         Inl e \<Rightarrow> False
       | Inr fm \<Rightarrow> int_ge_float s (float_mul fm (round_frac 7 10)) = (7 * m \<le> 10 * s)))
      [0..<22]) [0..<22]"
  by code_simp

lemma threshold_exact:
  assumes "m \<le> 21" and "s \<le> 21"
  shows "\<exists>fm. float_of_nat m = Inr fm \<and>
           (int_ge_float s (float_mul fm (round_frac 7 10)) \<longleftrightarrow> 7 * m \<le> 10 * s)"
proof -
  have "m \<in> set [0..<22]" and "s \<in> set [0..<22]" using assms by simp_all
  then have "case float_of_nat m of
         Inl e \<Rightarrow> False
       | Inr fm \<Rightarrow> int_ge_float s (float_mul fm (round_frac 7 10)) = (7 * m \<le> 10 * s)"
    using threshold_table unfolding list_all_iff by blast
  then show ?thesis by (cases "float_of_nat m") simp_all
qed

lemma keyword_score_le: "keyword_score kws p \<le> length kws"
  by (simp add: keyword_score_def)

lemma category_scores_keys:
  "map fst (category_scores p) = [''modeling'', ''material'', ''scene'', ''animation'']"
  by (simp add: category_scores_def CATEGORIES_def)

lemma categories_lengths: "(c, kws) \<in> set CATEGORIES \<Longrightarrow> length kws \<le> 21"
  by (auto simp: CATEGORIES_def)

lemma category_scores_mem:
  "(c, s) \<in> set (category_scores p) \<Longrightarrow>
     \<exists>kws. (c, kws) \<in> set CATEGORIES \<and> s = keyword_score kws p"
  unfolding category_scores_def by auto

lemma category_scores_bound: "(c, s) \<in> set (category_scores p) \<Longrightarrow> s \<le> 21"
proof -
  assume "(c, s) \<in> set (category_scores p)"
  then obtain kws where "(c, kws) \<in> set CATEGORIES" and "s = keyword_score kws p"
    unfolding category_scores_def by auto
  then show ?thesis using categories_lengths[of c kws] keyword_score_le[of kws p] by simp
qed

lemma category_scores_nonempty: "category_scores p \<noteq> []"
  using category_scores_keys[of p] by auto

lemma py_max_eq: "xs \<noteq> [] \<Longrightarrow> py_max xs = Inr (Max (set xs))"
proof -
  assume "xs \<noteq> []"
  then obtain y ys where xs: "xs = y # ys" by (cases xs) auto
  have "py_max (y # ys) = Inr (fold max ys y)" by simp
  also have "fold max ys y = Max (set (y # ys))" by (rule Max.set_eq_fold[symmetric])
  finally show ?thesis using xs by simp
qed

lemma max_key_loop_first:
  "\<exists>before after. b # rest = before @ max_key_loop rest b # after \<and>
      (\<forall>x \<in> set before. snd x < snd (max_key_loop rest b)) \<and>
      (\<forall>x \<in> set after. snd x \<le> snd (max_key_loop rest b))"
proof (induction rest arbitrary: b)
  case Nil
  have "[b] = [] @ max_key_loop [] b # []" by simp
  then show ?case by fastforce
next
  case (Cons kv rest)
  obtain k v where kv: "kv = (k, v)" by (cases kv)
  obtain bk bv where b: "b = (bk, bv)" by (cases b)
  show ?case
  proof (cases "bv < v")
    case True
    then have r: "max_key_loop (kv # rest) b = max_key_loop rest (k, v)" using kv b by simp
    obtain before after where e: "(k, v) # rest = before @ max_key_loop rest (k, v) # after"
      and lt: "\<forall>x \<in> set before. snd x < snd (max_key_loop rest (k, v))"
      and le: "\<forall>x \<in> set after. snd x \<le> snd (max_key_loop rest (k, v))"
      using Cons.IH[of "(k, v)"] by blast
    have "v \<le> snd (max_key_loop rest (k, v))"
    proof (cases before)
      case Nil
      from e[unfolded Nil append_Nil]
      have "max_key_loop rest (k, v) = (k, v)" by (metis list.inject)
      then show ?thesis by simp
    next
      case (Cons x xs)
      then have "x = (k, v)" using e by simp
      then show ?thesis using lt Cons by fastforce
    qed
    then have "bv < snd (max_key_loop rest (k, v))" using True by simp
    then have "\<forall>x \<in> set (b # before). snd x < snd (max_key_loop rest (k, v))"
      using lt b by simp
    moreover have "b # kv # rest = (b # before) @ max_key_loop rest (k, v) # after"
      using e kv by simp
    ultimately show ?thesis using le r by metis
  next
    case False
    then have r: "max_key_loop (kv # rest) b = max_key_loop rest b" using kv b by simp
    obtain before after where e: "b # rest = before @ max_key_loop rest b # after"
      and lt: "\<forall>x \<in> set before. snd x < snd (max_key_loop rest b)"
      and le: "\<forall>x \<in> set after. snd x \<le> snd (max_key_loop rest b)"
      using Cons.IH[of b] by blast
    show ?thesis
    proof (cases before)
      case Nil
      from e[unfolded Nil append_Nil]
      have mb: "max_key_loop rest b = b" and a: "after = rest" by (metis list.inject)+
      have "b # kv # rest = [] @ max_key_loop rest b # (kv # rest)" using mb by simp
      moreover have "\<forall>x \<in> set (kv # rest). snd x \<le> snd (max_key_loop rest b)"
        using le a mb False kv b by auto
      ultimately show ?thesis using r by (metis empty_iff list.set(1))
    next
      case (Cons x xs)
      then have xb: "x = b" and rest: "rest = xs @ max_key_loop rest b # after"
        using e by (metis append_Cons list.inject)+
      have bb: "snd b < snd (max_key_loop rest b)" using lt Cons xb by simp
      then have "bv < snd (max_key_loop rest b)" using b by simp
      then have "v < snd (max_key_loop rest b)" using False by simp
      then have "\<forall>x \<in> set (b # kv # xs). snd x < snd (max_key_loop rest b)"
        using lt Cons kv bb by simp
      moreover have "b # kv # rest = (b # kv # xs) @ max_key_loop rest b # after"
        using rest by simp
      ultimately show ?thesis using le r by metis
    qed
  qed
qed

lemma py_max_key_first:
  assumes "scores \<noteq> []"
  shows "\<exists>before cat after. py_max_key scores = Inr cat \<and>
           scores = before @ (cat, Max (snd ` set scores)) # after \<and>
           (\<forall>x \<in> set before. snd x < Max (snd ` set scores))"
proof -
  obtain b rest where s: "scores = b # rest" using assms by (cases scores) auto
  define r where "r = max_key_loop rest b"
  obtain before after where e: "b # rest = before @ r # after"
    and lt: "\<forall>x \<in> set before. snd x < snd r"
    and le: "\<forall>x \<in> set after. snd x \<le> snd r"
    using max_key_loop_first[of b rest] unfolding r_def by blast
  have "snd ` set scores = insert (snd r) (snd ` set before \<union> snd ` set after)"
    using s e by auto
  moreover have "\<forall>y \<in> snd ` set before \<union> snd ` set after. y \<le> snd r"
    using lt le by fastforce
  ultimately have m: "Max (snd ` set scores) = snd r"
    by (metis List.finite_set Max_insert2 finite_UnI finite_imageI)
  have "py_max_key scores = Inr (fst r)" using s by (simp add: py_max_key_def r_def)
  moreover have "scores = before @ (fst r, Max (snd ` set scores)) # after"
    using s e m by simp
  ultimately show ?thesis using lt m by metis
qed

lemma high_scoring_exact:
  assumes "scores = category_scores p" and "max_score = Max (snd ` set scores)"
  shows "\<exists>fmax. float_of_nat max_score = Inr fmax \<and>
           filter (\<lambda>(cat, score). int_ge_float score (float_mul fmax (round_frac 7 10))) scores
             = filter (\<lambda>(cat, score). 0.7 * real max_score \<le> real score) scores"
proof -
  have ne: "snd ` set scores \<noteq> {}" using assms(1) category_scores_nonempty by auto
  then have "max_score \<in> snd ` set scores" using assms(2) by (simp add: Max_in)
  then have mb: "max_score \<le> 21" using assms(1) category_scores_bound by force
  obtain fmax where f: "float_of_nat max_score = Inr fmax"
    using threshold_exact[OF mb, of 0] by auto
  have "int_ge_float s (float_mul fmax (round_frac 7 10)) \<longleftrightarrow> 0.7 * real max_score \<le> real s"
    if "(c, s) \<in> set scores" for c s
  proof -
    have "s \<le> 21" using that assms(1) category_scores_bound by blast
    then have "int_ge_float s (float_mul fmax (round_frac 7 10)) \<longleftrightarrow> 7 * max_score \<le> 10 * s"
      using threshold_exact[OF mb, of s] f by simp
    also have "\<dots> \<longleftrightarrow> real (7 * max_score) \<le> real (10 * s)" by (simp only: of_nat_le_iff)
    also have "\<dots> \<longleftrightarrow> 0.7 * real max_score \<le> real s" by (simp add: mult.commute)
    finally show ?thesis .
  qed
  then have "filter (\<lambda>(cat, score). int_ge_float score (float_mul fmax (round_frac 7 10))) scores
             = filter (\<lambda>(cat, score). 0.7 * real max_score \<le> real score) scores"
    by (intro filter_cong) auto
  then show ?thesis using f by blast
qed

lemma categorize_prompt_cases:
  assumes "scores = category_scores (lower prompt)" and "max_score = Max (snd ` set scores)"
    and "high_scoring = filter (\<lambda>(cat, score). 0.7 * real max_score \<le> real score) scores"
  shows "categorize_prompt prompt =
           (if max_score = 0 then Inr ''modeling''
            else if 1 < length high_scoring then Inr ''mixed''
            else py_max_key scores)"
proof -
  have ne: "scores \<noteq> []" unfolding assms(1) by (rule category_scores_nonempty)
  have pm: "py_max (map snd scores) = Inr max_score"
    using py_max_eq[of "map snd scores"] ne unfolding assms(2) by simp
  obtain fmax where f: "float_of_nat max_score = Inr fmax"
    and h: "filter (\<lambda>(cat, score). int_ge_float score (float_mul fmax (round_frac 7 10))) scores
             = high_scoring"
    using high_scoring_exact[OF assms(1,2)] unfolding assms(3) by blast
  show ?thesis
    using pm f h unfolding categorize_prompt_def Let_def assms(1)[symmetric] by simp
qed

text \<open>
  Claim C1 (category assignment). The scores are taken in the order modeling, material,
  scene, animation. When the largest score is positive: if more than one category has a
  score of at least 0.7 times the largest score (as real numbers), the result is
  \<open>mixed\<close>; if exactly one has, the result is a category that holds the largest score and
  has no category with the largest score before it in the order. The source compares with
  the double \<open>max_score * 0.7\<close>; for the scores that can occur (at most 21 keywords in a
  category) this is the same as the exact comparison, which is part of the proof.
\<close>

theorem categorize_prompt_mixed_or_first_max:
  "let scores = category_scores (lower prompt);
       max_score = Max (snd ` set scores);
       high_scoring = filter (\<lambda>(cat, score). 0.7 * real max_score \<le> real score) scores
   in map fst scores = [''modeling'', ''material'', ''scene'', ''animation''] \<and>
      (0 < max_score \<longrightarrow>
         (1 < length high_scoring \<longrightarrow> categorize_prompt prompt = Inr ''mixed'') \<and>
         (length high_scoring = 1 \<longrightarrow>
            (\<exists>before cat after.
               scores = before @ (cat, max_score) # after \<and>
               (\<forall>(c, s) \<in> set before. s < max_score) \<and>
               categorize_prompt prompt = Inr cat)))"
proof -
  define scores where "scores = category_scores (lower prompt)"
  define max_score where "max_score = Max (snd ` set scores)"
  define high_scoring where
    "high_scoring = filter (\<lambda>(cat, score). 0.7 * real max_score \<le> real score) scores"
  have ne: "scores \<noteq> []" unfolding scores_def by (rule category_scores_nonempty)
  note cp = categorize_prompt_cases[OF scores_def max_score_def high_scoring_def]
  have mixed: "categorize_prompt prompt = Inr ''mixed''" if "0 < max_score" "1 < length high_scoring"
    using cp that by simp
  have single: "\<exists>before cat after.
               scores = before @ (cat, max_score) # after \<and>
               (\<forall>(c, s) \<in> set before. s < max_score) \<and>
               categorize_prompt prompt = Inr cat" if "0 < max_score" "length high_scoring = 1"
  proof -
    obtain before cat after where k: "py_max_key scores = Inr cat"
      and e: "scores = before @ (cat, max_score) # after"
      and lt: "\<forall>x \<in> set before. snd x < max_score"
      using py_max_key_first[OF ne] unfolding max_score_def by blast
    have "categorize_prompt prompt = Inr cat" using cp that k by simp
    moreover have "\<forall>(c, s) \<in> set before. s < max_score" using lt by auto
    ultimately show ?thesis using e by blast
  qed
  have keys: "map fst scores = [''modeling'', ''material'', ''scene'', ''animation'']"
    unfolding scores_def by (rule category_scores_keys)
  show ?thesis
    unfolding Let_def scores_def[symmetric] max_score_def[symmetric] high_scoring_def[symmetric]
    using keys mixed single by blast
qed

lemma category_scores_example_single:
  "category_scores (lower ''Create a metal cube'') =
     [(''modeling'', 2), (''material'', 1), (''scene'', 0), (''animation'', 0)]"
  by code_simp

lemma categorize_prompt_example_single:
  "categorize_prompt ''Create a metal cube'' = Inr ''modeling''"
  by code_simp

lemma category_scores_example_mixed:
  "category_scores (lower ''Animate the camera'') =
     [(''modeling'', 0), (''material'', 0), (''scene'', 1), (''animation'', 1)]"
  by code_simp

lemma categorize_prompt_example_mixed:
  "categorize_prompt ''Animate the camera'' = Inr ''mixed''"
  by code_simp

theorem categorize_prompt_mixed_or_first_max_witness:
  "category_scores (lower ''Create a metal cube'') =
     [(''modeling'', 2), (''material'', 1), (''scene'', 0), (''animation'', 0)] \<and>
   categorize_prompt ''Create a metal cube'' = Inr ''modeling'' \<and>
   category_scores (lower ''Animate the camera'') =
     [(''modeling'', 0), (''material'', 0), (''scene'', 1), (''animation'', 1)] \<and>
   categorize_prompt ''Animate the camera'' = Inr ''mixed''"
  using categorize_prompt_mixed_or_first_max [of "''Create a metal cube''"]
    category_scores_example_single categorize_prompt_example_single
    category_scores_example_mixed categorize_prompt_example_mixed
  by blast

lemma py_max_key_mem: "py_max_key scores = Inr cat \<Longrightarrow> cat \<in> set (map fst scores)"
proof -
  assume a: "py_max_key scores = Inr cat"
  then have ne: "scores \<noteq> []" by (auto simp: py_max_key_def)
  obtain before c after where "py_max_key scores = Inr c"
    and "scores = before @ (c, Max (snd ` set scores)) # after"
    using py_max_key_first[OF ne] by blast
  then have "c = cat" and "(c, Max (snd ` set scores)) \<in> set scores"
    using a by (simp, metis in_set_conv_decomp)
  then have "fst (cat, Max (snd ` set scores)) \<in> fst ` set scores" by blast
  then show ?thesis by simp
qed

lemma py_max_key_total: "scores \<noteq> [] \<Longrightarrow> \<exists>cat. py_max_key scores = Inr cat"
  by (cases scores) (simp_all add: py_max_key_def)

text \<open>
  Claim C6 (default category). \<open>_categorize_prompt\<close> always returns one of the five
  category names, so the category is never empty; and when no keyword of any of the four
  keyword lists is a substring of the lower-cased prompt, it returns \<open>modeling\<close>.
\<close>

theorem categorize_prompt_default_modeling:
  "(\<exists>cat. categorize_prompt prompt = Inr cat \<and> cat \<noteq> [] \<and>
          cat \<in> set [''modeling'', ''material'', ''scene'', ''animation'', ''mixed'']) \<and>
   ((\<forall>(category, keywords) \<in> set CATEGORIES.
        \<forall>keyword \<in> set keywords. \<not> str_in keyword (lower prompt)) \<longrightarrow>
      categorize_prompt prompt = Inr ''modeling'')"
proof -
  define scores where "scores = category_scores (lower prompt)"
  define max_score where "max_score = Max (snd ` set scores)"
  define high_scoring where
    "high_scoring = filter (\<lambda>(cat, score). 0.7 * real max_score \<le> real score) scores"
  have ne: "scores \<noteq> []" unfolding scores_def by (rule category_scores_nonempty)
  note cp = categorize_prompt_cases[OF scores_def max_score_def high_scoring_def]
  have keys: "map fst scores = [''modeling'', ''material'', ''scene'', ''animation'']"
    unfolding scores_def by (rule category_scores_keys)
  obtain k where k: "py_max_key scores = Inr k" using py_max_key_total[OF ne] by blast
  then have "k \<in> set [''modeling'', ''material'', ''scene'', ''animation'']"
    using py_max_key_mem[of scores k] keys by simp
  then have kin: "k \<in> set [''modeling'', ''material'', ''scene'', ''animation'', ''mixed'']"
    by auto
  have "\<exists>cat. categorize_prompt prompt = Inr cat \<and>
          cat \<in> set [''modeling'', ''material'', ''scene'', ''animation'', ''mixed'']"
  proof (cases "max_score = 0")
    case True
    then have "categorize_prompt prompt = Inr ''modeling''" using cp by simp
    then show ?thesis by simp
  next
    case False
    show ?thesis
    proof (cases "1 < length high_scoring")
      case True
      then have "categorize_prompt prompt = Inr ''mixed''" using cp False by simp
      then show ?thesis by simp
    next
      case nomix: False
      then have "categorize_prompt prompt = Inr k" using cp False k by simp
      then show ?thesis using kin by blast
    qed
  qed
  then obtain cat where c: "categorize_prompt prompt = Inr cat"
    and m: "cat \<in> set [''modeling'', ''material'', ''scene'', ''animation'', ''mixed'']" by blast
  have "cat \<noteq> []" using m by auto
  then have first: "\<exists>cat. categorize_prompt prompt = Inr cat \<and> cat \<noteq> [] \<and>
          cat \<in> set [''modeling'', ''material'', ''scene'', ''animation'', ''mixed'']"
    using c m by blast
  have second: "categorize_prompt prompt = Inr ''modeling''"
    if none: "\<forall>(category, keywords) \<in> set CATEGORIES.
        \<forall>keyword \<in> set keywords. \<not> str_in keyword (lower prompt)"
  proof -
    have "s = 0" if cs: "(c, s) \<in> set scores" for c s
    proof -
      obtain kws where kw: "(c, kws) \<in> set CATEGORIES" and s: "s = keyword_score kws (lower prompt)"
        using category_scores_mem[OF cs[unfolded scores_def]] by blast
      have "\<forall>keyword \<in> set kws. \<not> str_in keyword (lower prompt)" using none kw by blast
      then have "filter (\<lambda>keyword. str_in keyword (lower prompt)) kws = []"
        by (simp add: filter_empty_conv)
      then show ?thesis using s by (simp add: keyword_score_def)
    qed
    then have "snd ` set scores = {0}" using ne by (cases scores) force+
    then have "max_score = 0" unfolding max_score_def by simp
    then show ?thesis using cp by simp
  qed
  show ?thesis using first second by blast
qed

lemma categorize_prompt_example_default:
  "categorize_prompt ''Hi!'' = Inr ''modeling''"
  by code_simp

lemma no_keyword_example:
  "list_all (\<lambda>(category, keywords). list_all (\<lambda>keyword. \<not> str_in keyword (lower ''Hi!'')) keywords)
     CATEGORIES"
  by code_simp

theorem categorize_prompt_default_modeling_witness:
  "list_all (\<lambda>(category, keywords). list_all (\<lambda>keyword. \<not> str_in keyword (lower ''Hi!'')) keywords)
     CATEGORIES \<and>
   categorize_prompt ''Hi!'' = Inr ''modeling''"
  using categorize_prompt_default_modeling [of "''Hi!''"]
    no_keyword_example categorize_prompt_example_default
  by blast

text \<open>
  Claim C10 (no \<open>complex\<close> without an advanced keyword). When none of the eight advanced
  keywords is a substring of the lower-cased prompt, the score of \<open>_assess_complexity\<close> is
  at most 6 (at most 3 for the word count and at most 3 for the entity count), for every
  \<open>entities\<close> argument, and the reported complexity is not \<open>complex\<close>.
\<close>

theorem complexity_without_keyword_not_complex:
  assumes "\<forall>keyword \<in> set complex_keywords. \<not> str_in keyword (lower prompt)"
  shows "complexity_score prompt entities \<le> 6 \<and>
         assess_complexity prompt entities \<noteq> ''complex'' \<and>
         assess_complexity prompt entities \<in> {''simple'', ''medium''}"
proof -
  have "\<not> list_ex (\<lambda>keyword. str_in keyword (lower prompt)) complex_keywords"
    using assms by (simp add: list_ex_iff)
  then have s: "complexity_score prompt entities \<le> 6"
    by (simp add: complexity_score_def Let_def)
  then have "assess_complexity prompt entities \<in> {''simple'', ''medium''}"
    by (simp add: assess_complexity_def Let_def)
  then show ?thesis using s by auto
qed

lemma complexity_example:
  "list_all (\<lambda>keyword. \<not> str_in keyword (lower ''a red cube on a table'')) complex_keywords \<and>
   complexity_score ''a red cube on a table''
     [(''objects'', StrList [''cube'', ''table'']), (''colors'', StrList [''red'']),
      (''materials'', StrList []), (''quantities'', QuantityList [])] = 2 \<and>
   assess_complexity ''a red cube on a table''
     [(''objects'', StrList [''cube'', ''table'']), (''colors'', StrList [''red'']),
      (''materials'', StrList []), (''quantities'', QuantityList [])] = ''simple''"
  by code_simp

theorem complexity_without_keyword_not_complex_witness:
  "list_all (\<lambda>keyword. \<not> str_in keyword (lower ''a red cube on a table'')) complex_keywords \<and>
   complexity_score ''a red cube on a table''
     [(''objects'', StrList [''cube'', ''table'']), (''colors'', StrList [''red'']),
      (''materials'', StrList []), (''quantities'', QuantityList [])] = 2 \<and>
   assess_complexity ''a red cube on a table''
     [(''objects'', StrList [''cube'', ''table'']), (''colors'', StrList [''red'']),
      (''materials'', StrList []), (''quantities'', QuantityList [])] = ''simple''"
  using complexity_without_keyword_not_complex [of "''a red cube on a table''"
      "[(''objects'', StrList [''cube'', ''table'']), (''colors'', StrList [''red'']),
      (''materials'', StrList []), (''quantities'', QuantityList [])]"]
    complexity_example
  by blast



subsection \<open>Measurement extraction\<close>

lemma not_digit_dot: "\<not> is_digit (CHR ''.'')"
  by (simp add: is_digit_def)

lemma py_float_int:
  assumes "ds \<noteq> []" and "\<forall>c \<in> set ds. is_digit c"
  shows "py_float ds = Inr (round_frac (digits_value ds) 1)"
proof -
  have t: "takeWhile is_digit ds = ds" using assms(2) by (simp add: takeWhile_eq_all_conv)
  have d: "dropWhile is_digit ds = []" using assms(2) by simp
  show ?thesis unfolding py_float_def Let_def t d using assms(1) by simp
qed

lemma py_float_point:
  assumes "ds \<noteq> []" and "\<forall>c \<in> set ds. is_digit c" and "\<forall>c \<in> set fs. is_digit c"
  shows "py_float (ds @ CHR ''.'' # fs) =
           Inr (round_frac (digits_value (ds @ fs)) (10 ^ length fs))"
proof -
  have t: "takeWhile is_digit (ds @ CHR ''.'' # fs) = ds"
    using assms(2) not_digit_dot by (simp add: takeWhile_append2)
  have d: "dropWhile is_digit (ds @ CHR ''.'' # fs) = CHR ''.'' # fs"
    using assms(2) not_digit_dot by (simp add: dropWhile_append2)
  have "list_all is_digit fs" using assms(3) by (simp add: list_all_iff)
  then show ?thesis unfolding py_float_def Let_def t d using assms(1) by simp
qed

lemma match_at_value:
  assumes "match_at s = Some (v, u, n)"
  shows "\<exists>f. py_float v = Inr f"
proof -
  define int_part where "int_part = takeWhile is_digit s"
  define r1 where "r1 = dropWhile is_digit s"
  define dot where "dot = (case r1 of [] \<Rightarrow> [] | c # cs \<Rightarrow> if c = CHR ''.'' then [c] else [])"
  define frac_part where "frac_part = takeWhile is_digit (drop (length dot) r1)"
  have ne: "int_part \<noteq> []"
    using assms unfolding match_at_def int_part_def by (auto simp: Let_def split: if_splits)
  have v: "v = int_part @ dot @ frac_part"
    using assms unfolding match_at_def int_part_def r1_def dot_def frac_part_def
    by (auto simp: Let_def split: if_splits option.splits)
  have di: "\<forall>c \<in> set int_part. is_digit c"
    unfolding int_part_def using set_takeWhileD by fastforce
  have df: "\<forall>c \<in> set frac_part. is_digit c"
    unfolding frac_part_def using set_takeWhileD by fastforce
  show ?thesis
  proof (cases "dot = []")
    case True
    have "takeWhile is_digit r1 = []"
      unfolding r1_def by (metis dropWhile_eq_Nil_conv hd_dropWhile takeWhile_eq_Nil_iff list.collapse takeWhile.simps(1) takeWhile.simps(2))
    then have "frac_part = []" unfolding frac_part_def using True by simp
    then have "v = int_part" using v True by simp
    then show ?thesis using py_float_int[OF ne di] by simp
  next
    case False
    then have "dot = [CHR ''.'']"
      unfolding dot_def by (auto split: list.splits if_splits)
    then have "v = int_part @ CHR ''.'' # frac_part" using v by simp
    then show ?thesis using py_float_point[OF ne di df] by simp
  qed
qed

lemma findall_scan_values:
  "(v, u) \<in> set (findall_scan k s) \<Longrightarrow> \<exists>f. py_float v = Inr f"
proof (induction k s rule: findall_scan.induct)
  case (1 skip)
  then show ?case by simp
next
  case (2 k c cs)
  then show ?case by simp
next
  case (3 c cs)
  show ?case
  proof (cases "match_at (c # cs)")
    case None
    then show ?thesis using 3 by simp
  next
    case (Some a)
    obtain v' u' n where a: "a = (v', u', n)" by (cases a)
    then have "(v, u) = (v', u') \<or> (v, u) \<in> set (findall_scan (n - 1) cs)"
      using 3(3) Some by simp
    then show ?thesis
    proof
      assume "(v, u) = (v', u')"
      then show ?thesis using match_at_value[of "c # cs" v' u' n] Some a by simp
    next
      assume "(v, u) \<in> set (findall_scan (n - 1) cs)"
      then show ?thesis using 3(2)[OF Some] a by simp
    qed
  qed
qed

lemma measurements_loop_total:
  assumes "\<forall>(v, u) \<in> set matches. \<exists>f. py_float v = Inr f"
  shows "\<exists>new. measurements_loop matches acc = Inr (acc @ new) \<and>
           list_all2 (\<lambda>m (v, u). py_float v = Inr (original_value m) \<and> original_unit m = u \<and>
              blender_value m = float_mul (original_value m) (units_get u) \<and>
              blender_unit m = ''meters'') new matches"
  using assms
proof (induction matches arbitrary: acc)
  case Nil
  show ?case by simp
next
  case (Cons vu rest)
  obtain v u where vu: "vu = (v, u)" by (cases vu)
  obtain f where f: "py_float v = Inr f" using Cons.prems vu by auto
  define r where "r = \<lparr>original_value = f, original_unit = u,
                 blender_value = float_mul f (units_get u), blender_unit = ''meters''\<rparr>"
  have step: "measurements_loop (vu # rest) acc = measurements_loop rest (acc @ [r])"
    using vu f by (simp add: r_def)
  obtain new where n: "measurements_loop rest (acc @ [r]) = Inr ((acc @ [r]) @ new)"
    and l: "list_all2 (\<lambda>m (v, u). py_float v = Inr (original_value m) \<and> original_unit m = u \<and>
              blender_value m = float_mul (original_value m) (units_get u) \<and>
              blender_unit m = ''meters'') new rest"
    using Cons.IH[of "acc @ [r]"] Cons.prems by auto
  have "measurements_loop (vu # rest) acc = Inr (acc @ (r # new))" using step n by simp
  moreover have "list_all2 (\<lambda>m (v, u). py_float v = Inr (original_value m) \<and> original_unit m = u \<and>
              blender_value m = float_mul (original_value m) (units_get u) \<and>
              blender_unit m = ''meters'') (r # new) (vu # rest)"
    using l vu f by (simp add: r_def)
  ultimately show ?case by blast
qed

lemma ex5: "extract_measurements ''5 meters'' =
     Inr [\<lparr>original_value = round_frac 5 1, original_unit = ''m'',
           blender_value = round_frac 5 1, blender_unit = ''meters''\<rparr>]"
  by code_simp

lemma ex10: "extract_measurements ''10cm'' =
     Inr [\<lparr>original_value = round_frac 10 1, original_unit = ''cm'',
           blender_value = round_frac 1 10, blender_unit = ''meters''\<rparr>]"
  by code_simp

lemma ex25: "extract_measurements ''2.5 feet'' =
     Inr [\<lparr>original_value = round_frac 25 10, original_unit = ''feet'',
           blender_value = round_frac 762 1000, blender_unit = ''meters''\<rparr>]"
  by code_simp

lemma prod25: "float_mul (round_frac 25 10) (round_frac 3048 10000) = round_frac 762 1000"
  by code_simp

lemma fv5: "float_val (round_frac 5 1) = 5"
  by code_simp

lemma fv10: "float_val (round_frac 10 1) = 10"
  by code_simp

lemma fv25: "float_val (round_frac 25 10) = 5 / 2"
  by code_simp

lemma fv01: "\<bar>float_val (round_frac 1 10) - 1 / 10\<bar> < 1 / 10 ^ 17"
  by code_simp

lemma fv762: "\<bar>float_val (round_frac 762 1000) - 762 / 1000\<bar> < 1 / 10 ^ 16"
  by code_simp

lemma match_at_length: "match_at s = Some (v, u, n) \<Longrightarrow> 0 < n"
  unfolding match_at_def by (auto simp: Let_def split: if_splits option.splits)

lemma findall_scan_spans:
  "\<exists>spans. list_all2 (\<lambda>(p, n) (v, u). match_at (drop p s) = Some (v, u, n)) spans
              (findall_scan k s) \<and>
           sorted_wrt (\<lambda>(p, n) (p', n'). p + n \<le> p') spans \<and>
           (\<forall>(p, n) \<in> set spans. k \<le> p \<and> 0 < n)"
proof (induction k s rule: findall_scan.induct)
  case (1 skip)
  have "list_all2 (\<lambda>(p, n) (v, u). match_at (drop p []) = Some (v, u, n)) [] (findall_scan skip [])"
    by simp
  then show ?case by (metis (no_types, lifting) empty_iff list.set(1) sorted_wrt.simps(1))
next
  case (2 k c cs)
  obtain spans where l: "list_all2 (\<lambda>(p, n) (v, u). match_at (drop p cs) = Some (v, u, n)) spans
              (findall_scan k cs)"
    and s: "sorted_wrt (\<lambda>(p, n) (p', n'). p + n \<le> p') spans"
    and b: "\<forall>(p, n) \<in> set spans. k \<le> p \<and> 0 < n"
    using 2 by blast
  define spans' where "spans' = map (\<lambda>(p, n). (Suc p, n)) spans"
  have "list_all2 (\<lambda>(p, n) (v, u). match_at (drop p (c # cs)) = Some (v, u, n)) spans'
              (findall_scan (Suc k) (c # cs))"
    using l unfolding spans'_def case_prod_beta by (simp add: list_all2_map1)
  moreover have "sorted_wrt (\<lambda>(p, n) (p', n'). p + n \<le> p') spans'"
    using s unfolding spans'_def case_prod_beta by (simp add: sorted_wrt_map)
  moreover have "\<forall>(p, n) \<in> set spans'. Suc k \<le> p \<and> 0 < n"
    using b unfolding spans'_def by auto
  ultimately show ?case by blast
next
  case (3 c cs)
  show ?case
  proof (cases "match_at (c # cs)")
    case None
    obtain spans where l: "list_all2 (\<lambda>(p, n) (v, u). match_at (drop p cs) = Some (v, u, n)) spans
              (findall_scan 0 cs)"
      and s: "sorted_wrt (\<lambda>(p, n) (p', n'). p + n \<le> p') spans"
      and b: "\<forall>(p, n) \<in> set spans. 0 \<le> p \<and> 0 < n"
      using 3(1)[OF None] by blast
    define spans' where "spans' = map (\<lambda>(p, n). (Suc p, n)) spans"
    have "list_all2 (\<lambda>(p, n) (v, u). match_at (drop p (c # cs)) = Some (v, u, n)) spans'
              (findall_scan 0 (c # cs))"
      using l None unfolding spans'_def case_prod_beta by (simp add: list_all2_map1)
    moreover have "sorted_wrt (\<lambda>(p, n) (p', n'). p + n \<le> p') spans'"
      using s unfolding spans'_def case_prod_beta by (simp add: sorted_wrt_map)
    moreover have "\<forall>(p, n) \<in> set spans'. 0 \<le> p \<and> 0 < n"
      using b unfolding spans'_def by auto
    ultimately show ?thesis by blast
  next
    case (Some a)
    obtain v u n where a: "a = (v, u, n)" by (cases a)
    have m: "match_at (c # cs) = Some (v, u, n)" using Some a by simp
    have n: "0 < n" using match_at_length[OF m] .
    obtain spans where l: "list_all2 (\<lambda>(p, n) (v, u). match_at (drop p cs) = Some (v, u, n)) spans
              (findall_scan (n - 1) cs)"
      and s: "sorted_wrt (\<lambda>(p, n) (p', n'). p + n \<le> p') spans"
      and b: "\<forall>(p, k) \<in> set spans. n - 1 \<le> p \<and> 0 < k"
      using 3(2)[OF Some] a by blast
    define spans' where "spans' = (0, n) # map (\<lambda>(p, n). (Suc p, n)) spans"
    have "list_all2 (\<lambda>(p, n) (v, u). match_at (drop p (c # cs)) = Some (v, u, n)) spans'
              (findall_scan 0 (c # cs))"
      using l m unfolding spans'_def case_prod_beta by (simp add: list_all2_map1)
    moreover have "sorted_wrt (\<lambda>(p, n) (p', n'). p + n \<le> p') spans'"
      using s b n unfolding spans'_def case_prod_beta by (auto simp: sorted_wrt_map)
    moreover have "\<forall>(p, n) \<in> set spans'. 0 \<le> p \<and> 0 < n"
      using b n unfolding spans'_def by auto
    ultimately show ?thesis by blast
  qed
qed

lemma findall_spans:
  "\<exists>spans. list_all2 (\<lambda>(p, n) (v, u). match_at (drop p s) = Some (v, u, n)) spans (findall s) \<and>
           sorted_wrt (\<lambda>(p, n) (p', n'). p + n \<le> p') spans"
  unfolding findall_def using findall_scan_spans[of s 0] by blast


lemma list_all2_units:
  "list_all2 (\<lambda>m (v, u). py_float v = Inr (original_value m) \<and> original_unit m = u \<and>
              blender_value m = float_mul (original_value m) (units_get u) \<and>
              blender_unit m = ''meters'') ms matches \<Longrightarrow>
   \<forall>m \<in> set ms. blender_unit m = ''meters''"
  by (induction ms matches rule: list_all2_induct) auto

text \<open>
  Claim C5 (measurement extraction and conversion). On \<open>5 meters\<close> the extractor returns
  one record whose \<open>original_value\<close> and \<open>blender_value\<close> are both the double 5.0 (the unit
  group of the match is \<open>m\<close>, the first alternative that fits); on \<open>10cm\<close> one record with
  \<open>original_value\<close> 10.0 and \<open>blender_value\<close> the double that the literal \<open>0.1\<close> denotes; on
  \<open>2.5 feet\<close> one record whose \<open>blender_value\<close>, the rounded product of 2.5 and 0.3048, is
  the double nearest 0.762. For every prompt the extractor returns a list (it raises
  nothing), every record has the target unit \<open>meters\<close>, and the records stand in the order
  of the matches, the i-th record being built from the i-th match; the matches themselves
  lie from left to right in the prompt, each one starting at or behind the end of the one
  before (\<open>spans\<close> holds the start and the length of each match).
\<close>

theorem extract_measurements_conversion:
  "extract_measurements ''5 meters'' =
     Inr [\<lparr>original_value = round_frac 5 1, original_unit = ''m'',
           blender_value = round_frac 5 1, blender_unit = ''meters''\<rparr>] \<and>
   float_val (round_frac 5 1) = 5 \<and>
   extract_measurements ''10cm'' =
     Inr [\<lparr>original_value = round_frac 10 1, original_unit = ''cm'',
           blender_value = round_frac 1 10, blender_unit = ''meters''\<rparr>] \<and>
   float_val (round_frac 10 1) = 10 \<and>
   \<bar>float_val (round_frac 1 10) - 1 / 10\<bar> < 1 / 10 ^ 17 \<and>
   extract_measurements ''2.5 feet'' =
     Inr [\<lparr>original_value = round_frac 25 10, original_unit = ''feet'',
           blender_value = round_frac 762 1000, blender_unit = ''meters''\<rparr>] \<and>
   float_mul (round_frac 25 10) (round_frac 3048 10000) = round_frac 762 1000 \<and>
   \<bar>float_val (round_frac 762 1000) - 762 / 1000\<bar> < 1 / 10 ^ 16 \<and>
   (\<exists>ms. extract_measurements prompt = Inr ms \<and>
         (\<forall>m \<in> set ms. blender_unit m = ''meters'') \<and>
         list_all2 (\<lambda>m (v, u). py_float v = Inr (original_value m) \<and> original_unit m = u \<and>
              blender_value m = float_mul (original_value m) (units_get u) \<and>
              blender_unit m = ''meters'') ms (findall prompt)) \<and>
   (\<exists>spans. list_all2 (\<lambda>(p, n) (v, u). match_at (drop p prompt) = Some (v, u, n)) spans
                   (findall prompt) \<and>
            sorted_wrt (\<lambda>(p, n) (p', n'). p + n \<le> p') spans)"
proof -
  have "\<forall>(v, u) \<in> set (findall prompt). \<exists>f. py_float v = Inr f"
    unfolding findall_def using findall_scan_values by blast
  then obtain new where n: "measurements_loop (findall prompt) [] = Inr ([] @ new)"
    and l: "list_all2 (\<lambda>m (v, u). py_float v = Inr (original_value m) \<and> original_unit m = u \<and>
              blender_value m = float_mul (original_value m) (units_get u) \<and>
              blender_unit m = ''meters'') new (findall prompt)"
    using measurements_loop_total[of "findall prompt" "[]"] by blast
  have "extract_measurements prompt = Inr new" using n by (simp add: extract_measurements_def)
  then have general: "\<exists>ms. extract_measurements prompt = Inr ms \<and>
         (\<forall>m \<in> set ms. blender_unit m = ''meters'') \<and>
         list_all2 (\<lambda>m (v, u). py_float v = Inr (original_value m) \<and> original_unit m = u \<and>
              blender_value m = float_mul (original_value m) (units_get u) \<and>
              blender_unit m = ''meters'') ms (findall prompt)"
    using l list_all2_units[OF l] by blast
  show ?thesis using ex5 fv5 ex10 fv10 fv01 ex25 prod25 fv762 general findall_spans[of prompt]
    by blast
qed

lemma findall_example:
  "findall ''a 10cm cube on a 2.5 feet pole'' = [(''10'', ''cm''), (''2.5'', ''feet'')]"
  by code_simp

lemma extract_measurements_example:
  "extract_measurements ''a 10cm cube on a 2.5 feet pole'' =
     Inr [\<lparr>original_value = round_frac 10 1, original_unit = ''cm'',
           blender_value = round_frac 1 10, blender_unit = ''meters''\<rparr>,
          \<lparr>original_value = round_frac 25 10, original_unit = ''feet'',
           blender_value = round_frac 762 1000, blender_unit = ''meters''\<rparr>]"
  by code_simp

theorem extract_measurements_conversion_witness:
  "findall ''a 10cm cube on a 2.5 feet pole'' = [(''10'', ''cm''), (''2.5'', ''feet'')] \<and>
   extract_measurements ''a 10cm cube on a 2.5 feet pole'' =
     Inr [\<lparr>original_value = round_frac 10 1, original_unit = ''cm'',
           blender_value = round_frac 1 10, blender_unit = ''meters''\<rparr>,
          \<lparr>original_value = round_frac 25 10, original_unit = ''feet'',
           blender_value = round_frac 762 1000, blender_unit = ''meters''\<rparr>]"
  using extract_measurements_conversion [of "''a 10cm cube on a 2.5 feet pole''"]
    findall_example extract_measurements_example
  by blast


end
